theory Spec2Isabelle
  imports Complex_Main "HOL-Library.Word"
begin

section \<open>Strings and the live DOM\<close>

text \<open>
  A JavaScript string is a sequence of UTF-16 code units. The regular expressions of the
  source carry no \<open>u\<close> flag, so they work on code units too.
\<close>

type_synonym jsstring = "16 word list"

text \<open>
  The class \<open>\s\<close> of a JavaScript regular expression: WhiteSpace and LineTerminator of
  ECMAScript. \<open>String.prototype.trim\<close> strips the same set.
\<close>

definition isSpace :: "16 word \<Rightarrow> bool" where
  "isSpace c =
     (c \<in> {0x0009, 0x000A, 0x000B, 0x000C, 0x000D, 0x0020, 0x00A0, 0x1680,
            0x2028, 0x2029, 0x202F, 0x205F, 0x3000, 0xFEFF}
      \<or> (0x2000 \<le> c \<and> c \<le> 0x200A))"

text \<open>\<open>s.match(/^\s*/)[0]\<close>: the longest prefix of white space.\<close>

definition leadingWhitespace :: "jsstring \<Rightarrow> jsstring" where
  "leadingWhitespace s = takeWhile isSpace s"

text \<open>
  \<open>s.match(/\s*$/)[0]\<close>: the leftmost match is the longest suffix of white space.
\<close>

definition trailingWhitespace :: "jsstring \<Rightarrow> jsstring" where
  "trailingWhitespace s = rev (takeWhile isSpace (rev s))"

text \<open>\<open>s.trim()\<close>, which the extractor uses for the snapshot \<open>originalText\<close>.\<close>

definition trim :: "jsstring \<Rightarrow> jsstring" where
  "trim s = rev (dropWhile isSpace (rev (dropWhile isSpace s)))"

text \<open>
  A text node of the page: its \<open>textContent\<close> (a string for a Text node, never null) and
  its \<open>parentNode\<close> (\<open>None\<close> when the node is detached). Nodes are references, so the
  page is a store from node identities to nodes and two records may alias one node.
\<close>

record TextNode =
  textContent :: jsstring
  parentNode :: "nat option"

type_synonym dom = "nat \<Rightarrow> TextNode"

section \<open>DomTranslator\<close>

record TextNodeInfo =
  node :: nat
  originalText :: jsstring
  parentElement :: nat

record TranslatedText =
  original :: jsstring
  translated :: jsstring

text \<open>
  \<open>TranslationRecord\<close> of the source has the fields \<open>node\<close>, \<open>original\<close> and
  \<open>translated\<close>; they are prefixed here because the other records use the names.
\<close>

record TranslationRecord =
  rec_node :: nat
  rec_original :: jsstring
  rec_translated :: jsstring

text \<open>
  The field \<open>translationRecords\<close> is \<open>translations\<close> in the source (a reserved word here).
\<close>

record DomTranslator =
  translationRecords :: "TranslationRecord list"
  isTranslated :: bool

definition newDomTranslator :: DomTranslator where
  "newDomTranslator = \<lparr>translationRecords = [], isTranslated = False\<rparr>"

definition replaceNodeText :: "nat \<Rightarrow> jsstring \<Rightarrow> dom \<Rightarrow> dom" where
  "replaceNodeText n newText d =
     (let originalFull = textContent (d n);
          leading = leadingWhitespace originalFull;
          trailing = trailingWhitespace originalFull
      in d(n := (d n)\<lparr>textContent := leading @ newText @ trailing\<rparr>))"

text \<open>
  The body of the \<open>for\<close> loop of \<open>applyTranslations\<close>, run over both arrays in step. An
  element of \<open>translatedTexts\<close> may be null or undefined at run time (the source tests
  \<open>!translation\<close>), which is \<open>None\<close> here.
\<close>

fun applyLoop ::
  "TextNodeInfo list \<Rightarrow> TranslatedText option list \<Rightarrow> DomTranslator \<times> dom \<Rightarrow> DomTranslator \<times> dom"
where
  "applyLoop (nodeInfo # textNodes) (translation # translatedTexts) (t, d) =
     (case translation of
        None \<Rightarrow> applyLoop textNodes translatedTexts (t, d)
      | Some tr \<Rightarrow>
          if original tr = translated tr then applyLoop textNodes translatedTexts (t, d)
          else applyLoop textNodes translatedTexts
                 (t\<lparr>translationRecords := translationRecords t @
                       [\<lparr>rec_node = node nodeInfo, rec_original = originalText nodeInfo,
                         rec_translated = translated tr\<rparr>]\<rparr>,
                  replaceNodeText (node nodeInfo) (translated tr) d))"
| "applyLoop _ _ s = s"

definition applyTranslations ::
  "TextNodeInfo list \<Rightarrow> TranslatedText option list \<Rightarrow> DomTranslator \<times> dom \<Rightarrow> DomTranslator \<times> dom"
where
  "applyTranslations textNodes translatedTexts s =
     (if length textNodes \<noteq> length translatedTexts then s
      else (case applyLoop textNodes translatedTexts s of
              (t, d) \<Rightarrow> (t\<lparr>isTranslated := True\<rparr>, d)))"

fun restoreLoop :: "TranslationRecord list \<Rightarrow> dom \<Rightarrow> dom" where
  "restoreLoop [] d = d"
| "restoreLoop (r # rs) d =
     (if parentNode (d (rec_node r)) \<noteq> None
      then restoreLoop rs (replaceNodeText (rec_node r) (rec_original r) d)
      else restoreLoop rs d)"

definition restoreOriginal :: "DomTranslator \<times> dom \<Rightarrow> DomTranslator \<times> dom" where
  "restoreOriginal s =
     (case s of (t, d) \<Rightarrow>
        if \<not> isTranslated t then (t, d)
        else (t\<lparr>translationRecords := [], isTranslated := False\<rparr>, restoreLoop (translationRecords t) d))"

definition getStatus :: "DomTranslator \<Rightarrow> bool \<times> nat" where
  "getStatus t = (isTranslated t, length (translationRecords t))"

definition clear :: "DomTranslator \<times> dom \<Rightarrow> DomTranslator \<times> dom" where
  "clear s = (case s of (t, d) \<Rightarrow> (t\<lparr>translationRecords := [], isTranslated := False\<rparr>, d))"

text \<open>
  A session of the translator: any sequence of calls of its three mutating methods,
  starting from the freshly constructed object.
\<close>

datatype call =
    Apply "TextNodeInfo list" "TranslatedText option list"
  | Restore
  | Clear

fun step :: "call \<Rightarrow> DomTranslator \<times> dom \<Rightarrow> DomTranslator \<times> dom" where
  "step (Apply textNodes translatedTexts) s = applyTranslations textNodes translatedTexts s"
| "step Restore s = restoreOriginal s"
| "step Clear s = clear s"

fun run :: "call list \<Rightarrow> DomTranslator \<times> dom \<Rightarrow> DomTranslator \<times> dom" where
  "run [] s = s"
| "run (c # cs) s = run cs (step c s)"

text \<open>A pair the loop skips: a missing translation or one equal to its own original.\<close>

definition isNoop :: "TranslatedText option \<Rightarrow> bool" where
  "isNoop translation =
     (case translation of None \<Rightarrow> True | Some tr \<Rightarrow> original tr = translated tr)"

text \<open>
  A call whose translations report, pair by pair, the text that was sent: the \<open>original\<close>
  of each non-missing translation is the \<open>originalText\<close> of the node paired with it.
\<close>

definition matchedPair :: "TextNodeInfo \<times> TranslatedText option \<Rightarrow> bool" where
  "matchedPair p =
     (case snd p of None \<Rightarrow> True | Some tr \<Rightarrow> original tr = originalText (fst p))"

fun matched :: "call \<Rightarrow> bool" where
  "matched (Apply textNodes translatedTexts) = list_all matchedPair (zip textNodes translatedTexts)"
| "matched Restore = True"
| "matched Clear = True"

definition isRealSubstitution :: "TranslationRecord \<Rightarrow> bool" where
  "isRealSubstitution r = (rec_original r \<noteq> rec_translated r)"

text \<open>
  The flag is set whenever the log is non-empty: what every session maintains, and what
  makes \<open>restoreOriginal\<close> clear a non-empty log.
\<close>

definition flagCoversLog :: "DomTranslator \<Rightarrow> bool" where
  "flagCoversLog t = (isTranslated t \<or> translationRecords t = [])"

text \<open>The records of the log that refer to node \<open>n\<close>.\<close>

definition touches :: "nat \<Rightarrow> TranslationRecord \<Rightarrow> bool" where
  "touches n r = (rec_node r = n)"

text \<open>
  A text as the extractor snapshots it: not empty, and with no white space at either end.
\<close>

definition isTrimmed :: "jsstring \<Rightarrow> bool" where
  "isTrimmed x = (x \<noteq> [] \<and> \<not> isSpace (hd x) \<and> \<not> isSpace (last x))"

text \<open>A pair of a batch that substitutes the text of node \<open>n\<close>.\<close>

definition substitutes :: "nat \<Rightarrow> TextNodeInfo \<times> TranslatedText option \<Rightarrow> bool" where
  "substitutes n p = (node (fst p) = n \<and> \<not> isNoop (snd p))"

definition keepsNode :: "nat \<Rightarrow> TextNodeInfo \<times> TranslatedText option \<Rightarrow> bool" where
  "keepsNode n p = (\<not> substitutes n p)"

text \<open>
  A call that may come between a translation of node \<open>n\<close> and its restoration: a batch that
  does not substitute the text of \<open>n\<close> (a batch of mismatched lengths does nothing).
\<close>

fun leavesAlone :: "nat \<Rightarrow> call \<Rightarrow> bool" where
  "leavesAlone n (Apply textNodes translatedTexts) =
     (length textNodes = length translatedTexts \<longrightarrow>
        list_all (keepsNode n) (zip textNodes translatedTexts))"
| "leavesAlone n Restore = False"
| "leavesAlone n Clear = False"

text \<open>A page on which every node is empty and detached, to build examples from.\<close>

definition blankPage :: dom where
  "blankPage = (\<lambda>_. \<lparr>textContent = [], parentNode = None\<rparr>)"

text \<open>
  Examples for sessions on one node: the page whose node \<open>0\<close> is attached and reads \<open>c\<close>,
  the extracted information on node \<open>0\<close> with snapshot \<open>x\<close>, and the translation of \<open>a\<close>
  to \<open>b\<close>.
\<close>

definition examplePage :: "jsstring \<Rightarrow> dom" where
  "examplePage c = blankPage(0 := \<lparr>textContent = c, parentNode = Some 9\<rparr>)"

definition exampleNode :: "jsstring \<Rightarrow> TextNodeInfo" where
  "exampleNode x = \<lparr>node = 0, originalText = x, parentElement = 9\<rparr>"

definition exampleTranslation :: "jsstring \<Rightarrow> jsstring \<Rightarrow> TranslatedText option" where
  "exampleTranslation a b = Some \<lparr>original = a, translated = b\<rparr>"

section \<open>TranslationCache\<close>

text \<open>
  \<open>CacheEntry\<close> of the source has the fields \<open>translated\<close> and \<open>timestamp\<close>. Times are
  the integer milliseconds of \<open>Date.now()\<close>; every reading of the clock is an argument.
\<close>

record CacheEntry =
  entry_translated :: jsstring
  timestamp :: int

text \<open>
  A JavaScript \<open>Map\<close> iterates in insertion order, and \<open>evictOldest\<close> depends on that
  order when timestamps tie: the map is an association list with distinct keys.
  \<open>Map.prototype.get\<close> is \<open>map_of\<close>, \<open>size\<close> is \<open>length\<close>; \<open>set\<close> overwrites in place
  or appends, \<open>delete\<close> removes the key.
\<close>

primrec mapSet :: "'k \<Rightarrow> 'v \<Rightarrow> ('k \<times> 'v) list \<Rightarrow> ('k \<times> 'v) list" where
  "mapSet k v [] = [(k, v)]"
| "mapSet k v (p # ps) = (if fst p = k then (k, v) # ps else p # mapSet k v ps)"

definition mapDelete :: "'k \<Rightarrow> ('k \<times> 'v) list \<Rightarrow> ('k \<times> 'v) list" where
  "mapDelete k m = filter (\<lambda>p. fst p \<noteq> k) m"

type_synonym cache = "(jsstring \<times> CacheEntry) list"

definition maxSize :: nat where
  "maxSize = 1000"

definition ttl :: int where
  "ttl = 24 * 60 * 60 * 1000"

definition generateKey :: "jsstring \<Rightarrow> jsstring \<Rightarrow> jsstring \<Rightarrow> jsstring" where
  "generateKey text sourceLang targetLang = sourceLang @ [0x3A] @ targetLang @ [0x3A] @ text"

text \<open>\<open>get\<close> returns the string or null, and the cache it may have deleted from.\<close>

definition get :: "jsstring \<Rightarrow> jsstring \<Rightarrow> jsstring \<Rightarrow> int \<Rightarrow> cache \<Rightarrow> jsstring option \<times> cache" where
  "get text sourceLang targetLang now c =
     (let key = generateKey text sourceLang targetLang in
      case map_of c key of
        None \<Rightarrow> (None, c)
      | Some entry \<Rightarrow>
          if now - timestamp entry > ttl then (None, mapDelete key c)
          else (Some (entry_translated entry), c))"

text \<open>
  The scan of \<open>evictOldest\<close>: \<open>oldestTime\<close> starts as \<open>Infinity\<close>, which is \<open>None\<close> here,
  and every timestamp is below it.
\<close>

fun belowOldest :: "int \<Rightarrow> int option \<Rightarrow> bool" where
  "belowOldest t None = True"
| "belowOldest t (Some oldestTime) = (t < oldestTime)"

fun evictScan :: "cache \<Rightarrow> jsstring option \<times> int option \<Rightarrow> jsstring option \<times> int option" where
  "evictScan [] acc = acc"
| "evictScan ((key, entry) # rest) (oldestKey, oldestTime) =
     (if belowOldest (timestamp entry) oldestTime
      then evictScan rest (Some key, Some (timestamp entry))
      else evictScan rest (oldestKey, oldestTime))"

text \<open>\<open>if (oldestKey)\<close> is false for null and for the empty string.\<close>

definition evictOldest :: "cache \<Rightarrow> cache" where
  "evictOldest c =
     (case fst (evictScan c (None, None)) of
        None \<Rightarrow> c
      | Some oldestKey \<Rightarrow> if oldestKey \<noteq> [] then mapDelete oldestKey c else c)"

text \<open>\<open>TranslationCache.set\<close>, with the reading \<open>now\<close> of the clock.\<close>

definition set_cache :: "jsstring \<Rightarrow> jsstring \<Rightarrow> jsstring \<Rightarrow> jsstring \<Rightarrow> int \<Rightarrow> cache \<Rightarrow> cache" where
  "set_cache text translatedText sourceLang targetLang now c =
     (let c' = (if length c \<ge> maxSize then evictOldest c else c);
          key = generateKey text sourceLang targetLang
      in mapSet key \<lparr>entry_translated = translatedText, timestamp = now\<rparr> c')"

text \<open>
  The \<open>forEach\<close> of \<open>getMultiple\<close>, from index \<open>index\<close> on. The get at index \<open>i\<close> reads the
  clock as \<open>now i\<close>. \<open>cached\<close> is a \<open>Map\<close> from indices to strings, \<open>uncached\<close> an array of
  \<open>{index, text}\<close>. The test \<open>if (cachedTranslation)\<close> is false for null and for the empty
  string.
\<close>

fun getMultipleLoop ::
  "jsstring list \<Rightarrow> nat \<Rightarrow> jsstring \<Rightarrow> jsstring \<Rightarrow> (nat \<Rightarrow> int) \<Rightarrow>
   (nat \<times> jsstring) list \<times> (nat \<times> jsstring) list \<times> cache \<Rightarrow>
   (nat \<times> jsstring) list \<times> (nat \<times> jsstring) list \<times> cache"
where
  "getMultipleLoop [] index sourceLang targetLang now acc = acc"
| "getMultipleLoop (text # texts) index sourceLang targetLang now (cached, uncached, c) =
     (case get text sourceLang targetLang (now index) c of
        (None, c') \<Rightarrow>
          getMultipleLoop texts (Suc index) sourceLang targetLang now
            (cached, uncached @ [(index, text)], c')
      | (Some cachedTranslation, c') \<Rightarrow>
          if cachedTranslation \<noteq> []
          then getMultipleLoop texts (Suc index) sourceLang targetLang now
                 (mapSet index cachedTranslation cached, uncached, c')
          else getMultipleLoop texts (Suc index) sourceLang targetLang now
                 (cached, uncached @ [(index, text)], c'))"

definition getMultiple ::
  "jsstring list \<Rightarrow> jsstring \<Rightarrow> jsstring \<Rightarrow> (nat \<Rightarrow> int) \<Rightarrow> cache \<Rightarrow>
   (nat \<times> jsstring) list \<times> (nat \<times> jsstring) list \<times> cache"
where
  "getMultiple texts sourceLang targetLang now c =
     getMultipleLoop texts 0 sourceLang targetLang now ([], [], c)"

definition clear_cache :: "cache \<Rightarrow> cache" where
  "clear_cache c = []"

text \<open>
  A sequence of \<open>set\<close> calls, each \<open>(text, translated, sourceLang, targetLang, now)\<close>, and
  the key and the entry each one writes.
\<close>

type_synonym setCall = "jsstring \<times> jsstring \<times> jsstring \<times> jsstring \<times> int"

fun setAll :: "setCall list \<Rightarrow> cache \<Rightarrow> cache" where
  "setAll [] c = c"
| "setAll ((text, translatedText, sourceLang, targetLang, now) # calls) c =
     setAll calls (set_cache text translatedText sourceLang targetLang now c)"

fun keyOf :: "setCall \<Rightarrow> jsstring" where
  "keyOf (text, translatedText, sourceLang, targetLang, now) = generateKey text sourceLang targetLang"

fun entryOf :: "setCall \<Rightarrow> CacheEntry" where
  "entryOf (text, translatedText, sourceLang, targetLang, now) =
     \<lparr>entry_translated = translatedText, timestamp = now\<rparr>"

fun timeOf :: "setCall \<Rightarrow> int" where
  "timeOf (text, translatedText, sourceLang, targetLang, now) = now"

text \<open>
  What every cache of the program satisfies: the keys of a \<open>Map\<close> are distinct, and a
  generated key is never the empty string.
\<close>

definition wellFormed :: "cache \<Rightarrow> bool" where
  "wellFormed c = (distinct (map fst c) \<and> [] \<notin> set (map fst c))"

section \<open>Language detection of TextExtractor\<close>

text \<open>
  \<open>/[\<dots>]/g\<close> without the \<open>u\<close> flag counts UTF-16 code units: Hangul syllables
  \<open>U+AC00\<close> to \<open>U+D7A3\<close>, and the Latin letters \<open>a-z\<close>, \<open>A-Z\<close>.
\<close>

definition isHangul :: "16 word \<Rightarrow> bool" where
  "isHangul c = (0xAC00 \<le> c \<and> c \<le> 0xD7A3)"

definition isLatin :: "16 word \<Rightarrow> bool" where
  "isLatin c = ((0x61 \<le> c \<and> c \<le> 0x7A) \<or> (0x41 \<le> c \<and> c \<le> 0x5A))"

text \<open>The three string literals \<open>'ko'\<close>, \<open>'en'\<close> and \<open>'mixed'\<close>.\<close>

definition ko :: jsstring where
  "ko = [0x6B, 0x6F]"

definition en :: jsstring where
  "en = [0x65, 0x6E]"

definition mixed :: jsstring where
  "mixed = [0x6D, 0x69, 0x78, 0x65, 0x64]"

text \<open>
  The source divides two counts in double precision and compares the quotient with the
  literals \<open>0.7\<close> and \<open>0.3\<close>. The counts are integers below \<open>2^53\<close> and the division is
  correctly rounded, so for every total below \<open>10^15\<close> (no string is that long) the two
  comparisons hold exactly when they hold of the exact quotient and \<open>7/10\<close>, \<open>3/10\<close>: the
  literals are the doubles nearest to \<open>7/10\<close> and \<open>3/10\<close>, and a quotient that differs from
  them differs by at least \<open>1/(10 * total)\<close>. The model computes with exact rationals.
\<close>

definition detectLanguage :: "jsstring \<Rightarrow> jsstring" where
  "detectLanguage text =
     (let koreanChars = length (filter isHangul text);
          englishChars = length (filter isLatin text);
          total = koreanChars + englishChars
      in if total = 0 then mixed
         else (let koreanRatio = (of_nat koreanChars :: rat) / of_nat total
               in if koreanRatio > 7 / 10 then ko
                  else if koreanRatio < 3 / 10 then en
                  else mixed))"

text \<open>\<open>LanguageCode\<close> is a type of string literals; \<open>sourceLang\<close> is compared as a string.\<close>

definition isSourceLanguage :: "jsstring \<Rightarrow> jsstring \<Rightarrow> bool" where
  "isSourceLanguage text sourceLang =
     (let detected = detectLanguage text
      in if detected = mixed then True else detected = sourceLang)"

text \<open>
  The Hangul ratio as the specification words it: Hangul characters over Hangul plus
  Latin characters. It is to be compared with what \<open>detectLanguage\<close> computes.
\<close>

definition lettersOf :: "jsstring \<Rightarrow> nat" where
  "lettersOf text = length (filter isHangul text) + length (filter isLatin text)"

definition hangulRatio :: "jsstring \<Rightarrow> rat" where
  "hangulRatio text = of_nat (length (filter isHangul text)) / of_nat (lettersOf text)"

section \<open>Auxiliary notions for the cache\<close>

text \<open>
  The two results of \<open>getMultiple\<close> after the indices below \<open>k\<close>: each index below \<open>k\<close> is a
  key of exactly one of them, and \<open>uncached\<close> lists its indices in increasing order.
\<close>

definition partitionsUpTo :: "nat \<Rightarrow> (nat \<times> jsstring) list \<Rightarrow> (nat \<times> jsstring) list \<Rightarrow> bool" where
  "partitionsUpTo k cached uncached =
     (distinct (map fst cached) \<and> sorted_wrt (<) (map fst uncached)
      \<and> set (map fst cached) \<inter> set (map fst uncached) = {}
      \<and> set (map fst cached) \<union> set (map fst uncached) = {0..<k})"

text \<open>A cache that holds some of the entries of another and nothing else.\<close>

definition subcache :: "cache \<Rightarrow> cache \<Rightarrow> bool" where
  "subcache c1 c0 = (\<forall>k. map_of c1 k = None \<or> map_of c1 k = map_of c0 k)"

text \<open>The key and entry that a \<open>set\<close> call writes.\<close>

definition written :: "setCall \<Rightarrow> jsstring \<times> CacheEntry" where
  "written x = (keyOf x, entryOf x)"

text \<open>
  Examples: the \<open>i\<close>-th of a series of \<open>set\<close> calls with distinct texts at increasing
  times, and a clock that reads \<open>i\<close> at the \<open>i\<close>-th get of a batch.
\<close>

definition exampleCall :: "nat \<Rightarrow> setCall" where
  "exampleCall i = (replicate i 0x61, [0x62], en, ko, int i)"

definition exampleClock :: "nat \<Rightarrow> int" where
  "exampleClock i = int i"

section \<open>Properties of DomTranslator\<close>

lemma applyLoop_noop:
  "list_all isNoop translatedTexts \<Longrightarrow> applyLoop textNodes translatedTexts s = s"
proof (induction textNodes translatedTexts s rule: applyLoop.induct)
  case (1 nodeInfo textNodes translation translatedTexts t d)
  then show ?case by (auto simp: isNoop_def split: option.splits)
qed simp_all

text \<open>
  C7. A call of \<open>applyTranslations\<close> whose two arrays differ in length changes nothing:
  no node's text, no restoration record, not the flag.
\<close>

theorem applyTranslations_length_mismatch:
  "length textNodes \<noteq> length translatedTexts \<Longrightarrow>
     applyTranslations textNodes translatedTexts s = s"
  by (simp add: applyTranslations_def)

theorem applyTranslations_length_mismatch_witness:
  "length [\<lparr>node = 0, originalText = [0x68, 0x69], parentElement = 1\<rparr>]
     \<noteq> length ([] :: TranslatedText option list)
   \<and> applyTranslations [\<lparr>node = 0, originalText = [0x68, 0x69], parentElement = 1\<rparr>] []
        (newDomTranslator, blankPage)
      = (newDomTranslator, blankPage)"
  using applyTranslations_length_mismatch
    [of "[\<lparr>node = 0, originalText = [0x68, 0x69], parentElement = 1\<rparr>]" "[]"
        "(newDomTranslator, blankPage)"]
  by simp

lemma applyTranslations_flag:
  "isTranslated (fst (applyTranslations ns ts s)) = (length ns = length ts \<or> isTranslated (fst s))"
  by (auto simp: applyTranslations_def split: prod.splits)

text \<open>
  C1, as the code has it. A call whose two arrays have the same length and whose pairs are
  all no-ops (the translation is missing or equals its own original) appends no
  restoration record and changes no node, and it sets the flag \<open>isTranslated\<close>: the
  assignment follows the loop unconditionally. In general the flag after a call is true
  exactly when the lengths agree or it was true before.
\<close>

theorem applyTranslations_noop:
  assumes "length textNodes = length translatedTexts" and "list_all isNoop translatedTexts"
  shows "applyTranslations textNodes translatedTexts (t, d) = (t\<lparr>isTranslated := True\<rparr>, d)
       \<and> isTranslated (fst (applyTranslations ns ts s))
           = (length ns = length ts \<or> isTranslated (fst s))"
  using assms by (simp add: applyTranslations_def applyLoop_noop applyTranslations_flag[unfolded applyTranslations_def])

theorem applyTranslations_noop_witness:
  "length [\<lparr>node = 0, originalText = [0x61], parentElement = 1\<rparr>]
     = length [Some \<lparr>original = [0x61], translated = [0x61]\<rparr>]
   \<and> list_all isNoop [Some \<lparr>original = [0x61], translated = [0x61]\<rparr>]
   \<and> applyTranslations [\<lparr>node = 0, originalText = [0x61], parentElement = 1\<rparr>]
         [Some \<lparr>original = [0x61], translated = [0x61]\<rparr>] (newDomTranslator, blankPage)
       = (newDomTranslator\<lparr>isTranslated := True\<rparr>, blankPage)"
  using applyTranslations_noop
    [of "[\<lparr>node = 0, originalText = [0x61], parentElement = 1\<rparr>]"
        "[Some \<lparr>original = [0x61], translated = [0x61]\<rparr>]" newDomTranslator blankPage]
  by (simp add: isNoop_def)

text \<open>
  C1 as stated fails: one pair whose translation equals its original, applied to the fresh
  translator (flag false), leaves the flag true.
\<close>

theorem applyTranslations_noop_flag_counterexample:
  "length [\<lparr>node = 0, originalText = [0x61], parentElement = 1\<rparr>]
     = length [Some \<lparr>original = [0x61], translated = [0x61]\<rparr>]
   \<and> original \<lparr>original = [0x61], translated = [0x61]\<rparr>
     = translated \<lparr>original = [0x61], translated = [0x61]\<rparr>
   \<and> \<not> isTranslated newDomTranslator
   \<and> isTranslated (fst (applyTranslations
         [\<lparr>node = 0, originalText = [0x61], parentElement = 1\<rparr>]
         [Some \<lparr>original = [0x61], translated = [0x61]\<rparr>]
         (newDomTranslator, blankPage)))"
  by (simp add: applyTranslations_def newDomTranslator_def)

text \<open>Nodes that a text replacement does not name are left alone, and so is attachment.\<close>

lemma replaceNodeText_other: "m \<noteq> n \<Longrightarrow> replaceNodeText m x d n = d n"
  by (simp add: replaceNodeText_def Let_def)

lemma replaceNodeText_parentNode: "parentNode (replaceNodeText m x d n) = parentNode (d n)"
  by (simp add: replaceNodeText_def Let_def)

lemma restoreLoop_detached: "parentNode (d n) = None \<Longrightarrow> restoreLoop rs d n = d n"
proof (induction rs arbitrary: d)
  case Nil
  then show ?case by simp
next
  case (Cons r rs)
  show ?case
  proof (cases "rec_node r = n")
    case True
    with Cons show ?thesis by simp
  next
    case False
    with Cons show ?thesis
      by (simp add: replaceNodeText_parentNode replaceNodeText_other)
  qed
qed

lemma step_flagCoversLog: "flagCoversLog (fst s) \<Longrightarrow> flagCoversLog (fst (step c s))"
  by (cases c; cases s)
     (auto simp: flagCoversLog_def applyTranslations_def restoreOriginal_def clear_def
           split: prod.splits if_splits)

lemma run_flagCoversLog: "flagCoversLog (fst s) \<Longrightarrow> flagCoversLog (fst (run calls s))"
  by (induction calls arbitrary: s) (simp_all add: step_flagCoversLog)

lemma reachable_flagCoversLog: "flagCoversLog (fst (run calls (newDomTranslator, d0)))"
  by (rule run_flagCoversLog) (simp add: flagCoversLog_def newDomTranslator_def)

text \<open>
  C3. In every state a session can reach, and whatever the page has become meanwhile, a
  second \<open>restoreOriginal\<close> changes nothing (no node, not the log, not the flag); after the
  first the log is empty and the flag false, and a detached node keeps its content.
\<close>

theorem restoreOriginal_idempotent:
  "restoreOriginal (restoreOriginal (fst (run calls (newDomTranslator, d0)), d))
     = restoreOriginal (fst (run calls (newDomTranslator, d0)), d)
   \<and> translationRecords (fst (restoreOriginal (fst (run calls (newDomTranslator, d0)), d))) = []
   \<and> \<not> isTranslated (fst (restoreOriginal (fst (run calls (newDomTranslator, d0)), d)))
   \<and> (parentNode (d n) = None \<longrightarrow>
        snd (restoreOriginal (fst (run calls (newDomTranslator, d0)), d)) n = d n)"
  using reachable_flagCoversLog[of calls d0]
  by (auto simp: restoreOriginal_def flagCoversLog_def restoreLoop_detached)

theorem restoreOriginal_idempotent_witness:
  "parentNode (blankPage 0) = None
   \<and> snd (restoreOriginal (fst (run
         [Apply [\<lparr>node = 0, originalText = [0x61], parentElement = 1\<rparr>]
                [Some \<lparr>original = [0x61], translated = [0x62]\<rparr>]]
         (newDomTranslator, blankPage)), blankPage)) 0 = blankPage 0"
  using restoreOriginal_idempotent
    [of "[Apply [\<lparr>node = 0, originalText = [0x61], parentElement = 1\<rparr>]
                [Some \<lparr>original = [0x61], translated = [0x62]\<rparr>]]" blankPage blankPage 0]
  by (simp add: blankPage_def)

lemma applyLoop_real:
  "list_all matchedPair (zip textNodes translatedTexts) \<Longrightarrow>
   list_all isRealSubstitution (translationRecords (fst s)) \<Longrightarrow>
   list_all isRealSubstitution (translationRecords (fst (applyLoop textNodes translatedTexts s)))"
proof (induction textNodes translatedTexts s rule: applyLoop.induct)
  case (1 nodeInfo textNodes translation translatedTexts t d)
  then show ?case
    by (auto simp: matchedPair_def isRealSubstitution_def split: option.splits)
qed simp_all

lemma step_real:
  "matched c \<Longrightarrow> list_all isRealSubstitution (translationRecords (fst s)) \<Longrightarrow>
   list_all isRealSubstitution (translationRecords (fst (step c s)))"
proof (cases c)
  case (Apply ns ts)
  assume "matched c" "list_all isRealSubstitution (translationRecords (fst s))"
  with Apply applyLoop_real[of ns ts s] show ?thesis
    by (auto simp: applyTranslations_def split: prod.splits)
next
  case Restore
  assume "list_all isRealSubstitution (translationRecords (fst s))"
  with Restore show ?thesis by (cases s) (simp add: restoreOriginal_def)
next
  case Clear
  then show ?thesis by (cases s) (simp add: clear_def)
qed

lemma run_real:
  "list_all matched calls \<Longrightarrow> list_all isRealSubstitution (translationRecords (fst s)) \<Longrightarrow>
   list_all isRealSubstitution (translationRecords (fst (run calls s)))"
  by (induction calls arbitrary: s) (simp_all add: step_real)

text \<open>
  C8, as the code has it. The loop compares the translation's own \<open>original\<close> with its
  \<open>translated\<close> and records the node's \<open>originalText\<close>. In every session whose calls pass
  translations that report the text of the node they are paired with, every record of the
  log has \<open>original \<noteq> translated\<close>.
\<close>

theorem log_records_real_substitutions:
  "list_all matched calls \<Longrightarrow>
   list_all isRealSubstitution (translationRecords (fst (run calls (newDomTranslator, d0))))"
  by (rule run_real) (simp_all add: newDomTranslator_def)

theorem log_records_real_substitutions_witness:
  "list_all matched
     [Apply [\<lparr>node = 0, originalText = [0x61], parentElement = 1\<rparr>]
            [Some \<lparr>original = [0x61], translated = [0x62]\<rparr>]]
   \<and> list_all isRealSubstitution (translationRecords (fst (run
         [Apply [\<lparr>node = 0, originalText = [0x61], parentElement = 1\<rparr>]
                [Some \<lparr>original = [0x61], translated = [0x62]\<rparr>]]
         (newDomTranslator, blankPage))))"
  using log_records_real_substitutions
    [of "[Apply [\<lparr>node = 0, originalText = [0x61], parentElement = 1\<rparr>]
                [Some \<lparr>original = [0x61], translated = [0x62]\<rparr>]]" blankPage]
  by (simp add: matchedPair_def)

text \<open>
  C8 as stated fails when the reported original differs from the snapshot: the node's
  \<open>originalText\<close> is \<open>b\<close>, the translation says \<open>a\<close> became \<open>b\<close>, and the record that is
  logged has \<open>original = translated = b\<close>.
\<close>

theorem log_noop_record_counterexample:
  "translationRecords (fst (run
       [Apply [\<lparr>node = 0, originalText = [0x62], parentElement = 1\<rparr>]
              [Some \<lparr>original = [0x61], translated = [0x62]\<rparr>]]
       (newDomTranslator, blankPage)))
     = [\<lparr>rec_node = 0, rec_original = [0x62], rec_translated = [0x62]\<rparr>]"
  by (simp add: applyTranslations_def newDomTranslator_def)

text \<open>White space around a replacement text, and the three parts of a string.\<close>

lemma leadingWhitespace_wrap:
  "\<forall>c\<in>set lw. isSpace c \<Longrightarrow> x \<noteq> [] \<Longrightarrow> \<not> isSpace (hd x) \<Longrightarrow>
   leadingWhitespace (lw @ x @ tw) = lw"
  by (cases x) (simp_all add: leadingWhitespace_def)

lemma trailingWhitespace_wrap:
  "\<forall>c\<in>set tw. isSpace c \<Longrightarrow> x \<noteq> [] \<Longrightarrow> \<not> isSpace (last x) \<Longrightarrow>
   trailingWhitespace (lw @ x @ tw) = tw"
proof -
  assume a: "\<forall>c\<in>set tw. isSpace c" "x \<noteq> []" "\<not> isSpace (last x)"
  then have "rev x \<noteq> []" "\<not> isSpace (hd (rev x))" by (simp_all add: hd_rev)
  then obtain y ys where "rev x = y # ys" "\<not> isSpace y" by (cases "rev x") auto
  have "takeWhile isSpace (rev tw @ (y # ys @ rev lw))
          = rev tw @ takeWhile isSpace (y # ys @ rev lw)"
    using a(1) by (intro takeWhile_append2) simp
  with \<open>rev x = y # ys\<close> \<open>\<not> isSpace y\<close>
  have "takeWhile isSpace (rev tw @ rev x @ rev lw) = rev tw" by simp
  then show ?thesis by (simp add: trailingWhitespace_def)
qed

lemma leadingWhitespace_spaces: "\<forall>c\<in>set (leadingWhitespace s). isSpace c"
  by (auto simp: leadingWhitespace_def dest: set_takeWhileD)

lemma trailingWhitespace_spaces: "\<forall>c\<in>set (trailingWhitespace s). isSpace c"
  by (auto simp: trailingWhitespace_def dest: set_takeWhileD)

lemma trim_decompose:
  assumes "trim s \<noteq> []"
  shows "leadingWhitespace s @ trim s @ trailingWhitespace s = s"
proof -
  let ?r = "dropWhile isSpace s"
  have t: "trim s = rev (dropWhile isSpace (rev ?r))" by (simp add: trim_def)
  have r: "?r \<noteq> []"
  proof
    assume e: "?r = []"
    have "trim s = []" unfolding t e by simp
    with assms show False by simp
  qed
  then have "\<not> isSpace (hd ?r)" by (rule hd_dropWhile)
  with r obtain y ys where y: "?r = y # ys" "\<not> isSpace y" by (cases ?r) auto
  have "rev s = rev ?r @ rev (takeWhile isSpace s)"
    by (metis rev_append takeWhile_dropWhile_id)
  moreover have "y \<in> set (rev ?r)" using y by simp
  ultimately have tw: "takeWhile isSpace (rev s) = takeWhile isSpace (rev ?r)"
    using y(2) by simp
  have "trim s @ trailingWhitespace s
          = rev (dropWhile isSpace (rev ?r)) @ rev (takeWhile isSpace (rev ?r))"
    by (simp only: t trailingWhitespace_def tw)
  also have "\<dots> = rev (takeWhile isSpace (rev ?r) @ dropWhile isSpace (rev ?r))"
    by (simp only: rev_append)
  also have "\<dots> = ?r"
    by (simp only: takeWhile_dropWhile_id rev_rev_ident)
  finally have "trim s @ trailingWhitespace s = ?r" .
  then show ?thesis by (simp add: leadingWhitespace_def)
qed

lemma applyLoop_append:
  "length pre = length tpre \<Longrightarrow>
   applyLoop (pre @ ns) (tpre @ ts) s = applyLoop ns ts (applyLoop pre tpre s)"
proof (induction pre tpre arbitrary: s rule: list_induct2)
  case Nil
  then show ?case by simp
next
  case (Cons x xs y ys)
  then show ?case by (cases s) (simp split: option.splits)
qed

lemma applyLoop_frame:
  "list_all (keepsNode n) (zip ns ts) \<Longrightarrow>
   snd (applyLoop ns ts s) n = snd s n
   \<and> filter (touches n) (translationRecords (fst (applyLoop ns ts s)))
       = filter (touches n) (translationRecords (fst s))"
proof (induction ns ts s rule: applyLoop.induct)
  case (1 nodeInfo textNodes translation translatedTexts t d)
  then show ?case
    by (auto simp: replaceNodeText_other touches_def keepsNode_def substitutes_def isNoop_def
        split: option.splits)
qed simp_all

lemma restoreLoop_local:
  "d n = d' n \<Longrightarrow> \<forall>r\<in>set rs. touches n r \<Longrightarrow> restoreLoop rs d n = restoreLoop rs d' n"
proof (induction rs arbitrary: d d')
  case Nil
  then show ?case by simp
next
  case (Cons r rs)
  from Cons.prems have n: "rec_node r = n" and rest: "\<forall>r\<in>set rs. touches n r"
    by (simp_all add: touches_def)
  have same: "replaceNodeText n (rec_original r) d n = replaceNodeText n (rec_original r) d' n"
    using Cons.prems(1) by (simp add: replaceNodeText_def Let_def)
  show ?case
  proof (cases "parentNode (d n) = None")
    case True
    then have "parentNode (d' n) = None" using Cons.prems(1) by simp
    with True n Cons.IH[of d d', OF Cons.prems(1) rest] show ?thesis by simp
  next
    case False
    then have "parentNode (d' n) \<noteq> None" using Cons.prems(1) by simp
    with False n
      Cons.IH[of "replaceNodeText n (rec_original r) d" "replaceNodeText n (rec_original r) d'",
              OF same rest]
    show ?thesis by simp
  qed
qed

lemma restoreLoop_filter:
  "restoreLoop rs d n = restoreLoop (filter (touches n) rs) d n"
proof (induction rs arbitrary: d)
  case Nil
  then show ?case by simp
next
  case (Cons r rs)
  show ?case
  proof (cases "touches n r")
    case True
    with Cons show ?thesis by simp
  next
    case False
    then have m: "rec_node r \<noteq> n" by (simp add: touches_def)
    let ?d = "replaceNodeText (rec_node r) (rec_original r) d"
    have "restoreLoop (filter (touches n) rs) ?d n = restoreLoop (filter (touches n) rs) d n"
      by (rule restoreLoop_local) (simp_all add: replaceNodeText_other m)
    with Cons[of ?d] Cons[of d] False show ?thesis by (simp del: fun_upd_apply)
  qed
qed

text \<open>
  Calls that do not substitute the text of a node leave the node and its records alone.
\<close>

lemma applyTranslations_frame:
  assumes "leavesAlone n (Apply ns ts)"
  shows "snd (applyTranslations ns ts s) n = snd s n
       \<and> filter (touches n) (translationRecords (fst (applyTranslations ns ts s)))
           = filter (touches n) (translationRecords (fst s))
       \<and> (isTranslated (fst s) \<longrightarrow> isTranslated (fst (applyTranslations ns ts s)))"
proof (cases "length ns = length ts")
  case True
  with assms have "list_all (keepsNode n) (zip ns ts)" by simp
  from applyLoop_frame[OF this, of s] True show ?thesis
    by (cases "applyLoop ns ts s") (simp add: applyTranslations_def)
next
  case False
  then show ?thesis by (simp add: applyTranslations_def)
qed

lemma run_append: "run (xs @ ys) s = run ys (run xs s)"
  by (induction xs arbitrary: s) simp_all

lemma run_frame:
  "list_all (leavesAlone n) later \<Longrightarrow> isTranslated (fst s) \<Longrightarrow>
   snd (run later s) n = snd s n
   \<and> filter (touches n) (translationRecords (fst (run later s)))
       = filter (touches n) (translationRecords (fst s))
   \<and> isTranslated (fst (run later s))"
proof (induction later arbitrary: s)
  case Nil
  then show ?case by simp
next
  case (Cons c later)
  from Cons.prems(1) have c: "leavesAlone n c" and rest: "list_all (leavesAlone n) later"
    by simp_all
  from c obtain ns ts where a: "c = Apply ns ts" by (cases c) simp_all
  note f = applyTranslations_frame[OF c[unfolded a], of s]
  from f Cons.prems(2) have "isTranslated (fst (step c s))" by (simp add: a)
  from Cons.IH[OF rest this] f show ?case by (simp add: a)
qed

text \<open>
  Replaying records of one node whose originals are trimmed keeps the white space around
  the text and ends with the original of the last record.
\<close>

lemma isTrimmed_trim:
  assumes "trim s \<noteq> []"
  shows "isTrimmed (trim s)"
proof -
  let ?r = "dropWhile isSpace s"
  let ?q = "dropWhile isSpace (rev ?r)"
  have t: "trim s = rev ?q" by (simp add: trim_def)
  with assms have q: "?q \<noteq> []" by simp
  have r: "?r \<noteq> []"
  proof
    assume e: "?r = []"
    have "?q = []" unfolding e by simp
    with q show False by simp
  qed
  have "\<not> isSpace (hd ?q)" using q by (rule hd_dropWhile)
  then have l: "\<not> isSpace (last (trim s))" using q by (simp add: t last_rev)
  have "last ?q = last (rev ?r)" using q by (metis last_appendR takeWhile_dropWhile_id)
  also have "\<dots> = hd ?r" using r by (simp add: last_rev)
  finally have "hd (trim s) = hd ?r" using q by (simp add: t hd_rev)
  moreover have "\<not> isSpace (hd ?r)" using r by (rule hd_dropWhile)
  ultimately show ?thesis using assms l by (simp add: isTrimmed_def)
qed

lemma restoreLoop_chain:
  "rs \<noteq> [] \<Longrightarrow> \<forall>r\<in>set rs. touches n r \<and> isTrimmed (rec_original r) \<Longrightarrow>
   textContent (d n) = lw @ y @ tw \<Longrightarrow> isTrimmed y \<Longrightarrow>
   \<forall>c\<in>set lw. isSpace c \<Longrightarrow> \<forall>c\<in>set tw. isSpace c \<Longrightarrow> parentNode (d n) \<noteq> None \<Longrightarrow>
   textContent (restoreLoop rs d n) = lw @ rec_original (last rs) @ tw"
proof (induction rs arbitrary: d y)
  case Nil
  then show ?case by simp
next
  case (Cons r rs)
  from Cons.prems(2) have n: "rec_node r = n" and o: "isTrimmed (rec_original r)"
    by (simp_all add: touches_def)
  let ?d = "replaceNodeText n (rec_original r) d"
  from Cons.prems(4) have y: "y \<noteq> []" "\<not> isSpace (hd y)" "\<not> isSpace (last y)"
    by (simp_all add: isTrimmed_def)
  have lead: "leadingWhitespace (textContent (d n)) = lw"
    unfolding Cons.prems(3) using Cons.prems(5) y(1,2) by (rule leadingWhitespace_wrap)
  have trail: "trailingWhitespace (textContent (d n)) = tw"
    unfolding Cons.prems(3) using Cons.prems(6) y(1,3) by (rule trailingWhitespace_wrap)
  have c: "textContent (?d n) = lw @ rec_original r @ tw"
    by (simp add: replaceNodeText_def Let_def lead trail)
  have p: "parentNode (?d n) \<noteq> None"
    using Cons.prems(7) by (simp add: replaceNodeText_parentNode)
  have step: "restoreLoop (r # rs) d n = restoreLoop rs ?d n"
    using Cons.prems(7) n by simp
  show ?case
  proof (cases "rs = []")
    case True
    with step c show ?thesis by simp
  next
    case False
    from Cons.prems(2) have rest: "\<forall>r\<in>set rs. touches n r \<and> isTrimmed (rec_original r)"
      by simp
    from Cons.IH[of ?d "rec_original r", OF False rest c o Cons.prems(5,6) p] step False
    show ?thesis by simp
  qed
qed

text \<open>
  C2, as the code has it. Both directions keep the white space of the live content at the
  moment of the replacement and put the new text between, and \<open>restoreOriginal\<close> replays
  every record of the log in order. Take the last substitution made on a node before a
  \<open>restoreOriginal\<close>: pair \<open>i\<close> of a batch, with no later pair of the batch and no later
  batch substituting the text of the node, and no \<open>clear\<close> or \<open>restoreOriginal\<close> in between;
  \<open>before\<close> is the state when the loop reaches the pair. If the node is attached, the
  recorded \<open>originalText\<close> is the trimmed content of the node at that moment and is not
  empty, the translated text is not empty and neither starts nor ends with white space,
  and every earlier record of the node in the log has such an original too, then after the
  \<open>restoreOriginal\<close> the node has exactly the content it had at that moment.
\<close>

theorem translate_restore_roundtrip:
  assumes len: "length textNodes = length translatedTexts"
    and i: "i < length textNodes"
    and n: "n = node (textNodes ! i)"
    and before: "before = applyLoop (take i textNodes) (take i translatedTexts) (t, d)"
    and tr: "translatedTexts ! i = Some tr" "original tr \<noteq> translated tr"
    and snapshot: "originalText (textNodes ! i) = trim (textContent (snd before n))"
                  "trim (textContent (snd before n)) \<noteq> []"
    and clean: "isTrimmed (translated tr)"
    and earlier: "\<forall>r\<in>set (translationRecords (fst before)).
                    rec_node r = n \<longrightarrow> isTrimmed (rec_original r)"
    and rest: "\<forall>j<length textNodes. i < j \<longrightarrow> keepsNode n (textNodes ! j, translatedTexts ! j)"
    and later: "list_all (leavesAlone n) later"
    and attached: "parentNode (snd before n) \<noteq> None"
  shows "textContent (snd (run (Apply textNodes translatedTexts # later @ [Restore]) (t, d)) n)
         = textContent (snd before n)"
proof -
  obtain t1 d1 where s1: "before = (t1, d1)" by (cases before)
  let ?c = "textContent (d1 n)"
  let ?lw = "leadingWhitespace ?c" and ?tw = "trailingWhitespace ?c"
  let ?pre = "take i textNodes" and ?post = "drop (Suc i) textNodes"
  let ?tpre = "take i translatedTexts" and ?tpost = "drop (Suc i) translatedTexts"
  have ns: "textNodes = ?pre @ (textNodes ! i # ?post)"
    using i by (simp add: id_take_nth_drop)
  have ts: "translatedTexts = ?tpre @ (Some tr # ?tpost)"
    using i len tr(1) by (metis id_take_nth_drop)
  have lpre: "length ?pre = length ?tpre" using len by simp
  have post_keeps: "list_all (keepsNode n) (zip ?post ?tpost)"
    unfolding list_all_length
  proof (intro allI impI)
    fix k assume k: "k < length (zip ?post ?tpost)"
    then have "Suc i + k < length textNodes" by (simp add: less_diff_conv)
    moreover from k len have "zip ?post ?tpost ! k
        = (textNodes ! (Suc i + k), translatedTexts ! (Suc i + k))" by simp
    ultimately show "keepsNode n (zip ?post ?tpost ! k)" using rest by simp
  qed
  let ?rec = "\<lparr>rec_node = n, rec_original = originalText (textNodes ! i),
                rec_translated = translated tr\<rparr>"
  let ?t2 = "t1\<lparr>translationRecords := translationRecords t1 @ [?rec]\<rparr>"
  let ?d2 = "replaceNodeText n (translated tr) d1"
  obtain t3 d3 where s3: "applyLoop ?post ?tpost (?t2, ?d2) = (t3, d3)" by fastforce
  have pre: "applyLoop ?pre ?tpre (t, d) = (t1, d1)" using before s1 by simp
  have whole: "applyLoop textNodes translatedTexts (t, d) = (t3, d3)"
    by (subst ns, subst ts) (simp add: applyLoop_append[OF lpre] pre tr(2) s3 n[symmetric])
  have d3: "d3 n = ?d2 n"
    and t3: "filter (touches n) (translationRecords t3)
             = filter (touches n) (translationRecords t1) @ [?rec]"
    using applyLoop_frame[OF post_keeps, of "(?t2, ?d2)"]
    by (simp_all add: s3 touches_def)
  let ?s4 = "(t3\<lparr>isTranslated := True\<rparr>, d3)"
  have s4: "applyTranslations textNodes translatedTexts (t, d) = ?s4"
    by (simp add: applyTranslations_def len whole)
  obtain t5 d5 where s5: "run later ?s4 = (t5, d5)" by fastforce
  have d5: "d5 n = d3 n"
    and t5: "filter (touches n) (translationRecords t5) = filter (touches n) (translationRecords t3)"
    and f5: "isTranslated t5"
    using run_frame[OF later, of ?s4] by (simp_all add: s5)
  let ?rs = "filter (touches n) (translationRecords t1) @ [?rec]"
  have final: "snd (run (Apply textNodes translatedTexts # later @ [Restore]) (t, d)) n
        = restoreLoop ?rs d5 n"
  proof -
    have "run (Apply textNodes translatedTexts # later @ [Restore]) (t, d)
          = restoreOriginal (t5, d5)"
      by (simp add: run_append s4 s5)
    then have "snd (run (Apply textNodes translatedTexts # later @ [Restore]) (t, d)) n
          = restoreLoop (translationRecords t5) d5 n"
      using f5 by (simp add: restoreOriginal_def)
    also have "\<dots> = restoreLoop (filter (touches n) (translationRecords t5)) d5 n"
      by (rule restoreLoop_filter)
    finally show ?thesis by (simp only: t5 t3)
  qed
  have content: "textContent (d5 n) = ?lw @ translated tr @ ?tw"
    by (simp add: d5 d3 replaceNodeText_def Let_def)
  have p5: "parentNode (d5 n) \<noteq> None"
    using attached by (simp add: d5 d3 replaceNodeText_parentNode s1)
  have orig: "isTrimmed (originalText (textNodes ! i))"
    using snapshot isTrimmed_trim[of "textContent (snd before n)"] by simp
  have all: "\<forall>r\<in>set ?rs. touches n r \<and> isTrimmed (rec_original r)"
    using earlier orig by (auto simp: touches_def s1)
  have "textContent (restoreLoop ?rs d5 n) = ?lw @ rec_original (last ?rs) @ ?tw"
    using all content clean leadingWhitespace_spaces trailingWhitespace_spaces p5
    by (intro restoreLoop_chain) simp_all
  also have "\<dots> = ?lw @ trim ?c @ ?tw" using snapshot(1) by (simp add: s1)
  also have "\<dots> = ?c" using snapshot(2) by (intro trim_decompose) (simp add: s1)
  finally have r: "textContent (restoreLoop ?rs d5 n) = ?c" .
  show ?thesis unfolding final s1 snd_conv by (rule r)
qed

theorem translate_restore_roundtrip_witness:
  "textContent (snd (run
       (Apply [exampleNode [0x79, 0x6F]] [exampleTranslation [0x79, 0x6F] [0x7A, 0x7A]]
        # [Apply [\<lparr>node = 1, originalText = [0x6F, 0x6B], parentElement = 9\<rparr>]
                 [exampleTranslation [0x6F, 0x6B] [0x6A, 0x61]]]
        @ [Restore])
       (\<lparr>translationRecords =
            [\<lparr>rec_node = 0, rec_original = [0x68, 0x69], rec_translated = [0x79, 0x6F]\<rparr>],
          isTranslated = True\<rparr>,
        examplePage [0x20, 0x79, 0x6F, 0x0A])) 0)
     = [0x20, 0x79, 0x6F, 0x0A]"
  using translate_restore_roundtrip
    [where textNodes = "[exampleNode [0x79, 0x6F]]"
       and translatedTexts = "[exampleTranslation [0x79, 0x6F] [0x7A, 0x7A]]"
       and i = 0 and n = 0
       and t = "\<lparr>translationRecords =
            [\<lparr>rec_node = 0, rec_original = [0x68, 0x69], rec_translated = [0x79, 0x6F]\<rparr>],
          isTranslated = True\<rparr>"
       and d = "examplePage [0x20, 0x79, 0x6F, 0x0A]"
       and before = "(\<lparr>translationRecords =
            [\<lparr>rec_node = 0, rec_original = [0x68, 0x69], rec_translated = [0x79, 0x6F]\<rparr>],
          isTranslated = True\<rparr>, examplePage [0x20, 0x79, 0x6F, 0x0A])"
       and tr = "\<lparr>original = [0x79, 0x6F], translated = [0x7A, 0x7A]\<rparr>"
       and later = "[Apply [\<lparr>node = 1, originalText = [0x6F, 0x6B], parentElement = 9\<rparr>]
                 [exampleTranslation [0x6F, 0x6B] [0x6A, 0x61]]]"]
  by (simp add: exampleNode_def exampleTranslation_def examplePage_def isTrimmed_def trim_def
      isSpace_def keepsNode_def substitutes_def)

text \<open>
  C2 as stated fails. On node \<open>0\<close>, attached throughout, the content after the restore
  differs from the content before the translation in each of these sessions:
  \<^item> \<open>hi\<close> is translated to \<open>yo\<close> with a leading space: the restore leaves \<open>hi\<close> with a
    leading space;
  \<^item> \<open>hi\<close> between a space and a newline is translated to \<open>yo\<close> and \<open>yo\<close> then to \<open>zz\<close>:
    the restore leaves \<open>yo\<close>, the content before the second translation, not \<open>hi\<close>;
  \<^item> the page has changed \<open>hi\<close> to \<open>ho\<close> since the snapshot \<open>hi\<close> was taken: the restore
    leaves \<open>hi\<close>;
  \<^item> the node holds one space and the snapshot is empty: the restore leaves two spaces;
  \<^item> an earlier record has the original \<open>hi\<close> with a leading space; the node then reads
    \<open>yo\<close> and is translated to \<open>zz\<close>: the restore leaves \<open>yo\<close> with a leading space.
\<close>

theorem translate_restore_roundtrip_counterexample:
  "parentNode ((blankPage(0 := \<lparr>textContent = [0x68, 0x69], parentNode = Some 1\<rparr>)) 0) \<noteq> None
   \<and> textContent (snd (restoreOriginal (applyTranslations
         [\<lparr>node = 0, originalText = [0x68, 0x69], parentElement = 1\<rparr>]
         [Some \<lparr>original = [0x68, 0x69], translated = [0x20, 0x79, 0x6F]\<rparr>]
         (newDomTranslator,
          blankPage(0 := \<lparr>textContent = [0x68, 0x69], parentNode = Some 1\<rparr>)))) 0)
       = [0x20, 0x68, 0x69]
   \<and> textContent (snd (restoreOriginal (applyTranslations
         [\<lparr>node = 0, originalText = [0x68, 0x69], parentElement = 1\<rparr>]
         [Some \<lparr>original = [0x68, 0x69], translated = [0x20, 0x79, 0x6F]\<rparr>]
         (newDomTranslator,
          blankPage(0 := \<lparr>textContent = [0x68, 0x69], parentNode = Some 1\<rparr>)))) 0)
       \<noteq> textContent ((blankPage(0 := \<lparr>textContent = [0x68, 0x69], parentNode = Some 1\<rparr>)) 0)
   \<and> textContent (snd (run
         [Apply [exampleNode [0x68, 0x69]] [exampleTranslation [0x68, 0x69] [0x79, 0x6F]],
          Apply [exampleNode [0x79, 0x6F]] [exampleTranslation [0x79, 0x6F] [0x7A, 0x7A]],
          Restore]
         (newDomTranslator, examplePage [0x20, 0x68, 0x69, 0x0A])) 0)
       \<noteq> textContent (examplePage [0x20, 0x68, 0x69, 0x0A] 0)
   \<and> textContent (snd (run
         [Apply [exampleNode [0x68, 0x69]] [exampleTranslation [0x68, 0x69] [0x79, 0x6F]],
          Restore]
         (newDomTranslator, examplePage [0x68, 0x6F])) 0)
       \<noteq> textContent (examplePage [0x68, 0x6F] 0)
   \<and> textContent (snd (run
         [Apply [exampleNode []] [exampleTranslation [] [0x79, 0x6F]], Restore]
         (newDomTranslator, examplePage [0x20])) 0)
       \<noteq> textContent (examplePage [0x20] 0)
   \<and> textContent (snd (run
         [Apply [exampleNode [0x20, 0x68, 0x69]] [exampleTranslation [0x20, 0x68, 0x69] [0x79, 0x6F]]]
         (newDomTranslator, examplePage [0x68, 0x69])) 0)
       = [0x79, 0x6F]
   \<and> textContent (snd (run
         [Apply [exampleNode [0x20, 0x68, 0x69]] [exampleTranslation [0x20, 0x68, 0x69] [0x79, 0x6F]],
          Apply [exampleNode [0x79, 0x6F]] [exampleTranslation [0x79, 0x6F] [0x7A, 0x7A]],
          Restore]
         (newDomTranslator, examplePage [0x68, 0x69])) 0)
       = [0x20, 0x79, 0x6F]"
  by (simp add: applyTranslations_def restoreOriginal_def newDomTranslator_def
      replaceNodeText_def leadingWhitespace_def trailingWhitespace_def isSpace_def
      exampleNode_def exampleTranslation_def examplePage_def)

section \<open>Properties of TranslationCache\<close>

text \<open>The association list behaves as the \<open>Map\<close> it stands for.\<close>

lemma map_of_mapSet: "map_of (mapSet k v m) = (map_of m)(k \<mapsto> v)"
  by (induction m) (auto simp: fun_eq_iff)

lemma map_of_mapDelete: "map_of (mapDelete k m) k' = (if k' = k then None else map_of m k')"
  by (induction m) (auto simp: mapDelete_def)

lemma mapSet_fresh: "k \<notin> fst ` set m \<Longrightarrow> mapSet k v m = m @ [(k, v)]"
  by (induction m) auto

text \<open>
  C6. For a cache that holds, under the key of \<open>(text, sourceLang, targetLang)\<close>, an entry
  written at time \<open>T\<close>: a \<open>get\<close> at any time up to \<open>T + ttl - 1\<close> returns the stored
  string and leaves the cache as it is; a \<open>get\<close> at any time after \<open>T + ttl\<close> returns null
  and deletes this entry. Expiry is lazy: a \<open>get\<close> never touches the entry of another
  key, and it changes nothing while the age is at most \<open>ttl\<close>, which is 24 hours in
  milliseconds.
\<close>

theorem get_ttl:
  assumes "map_of c (generateKey text sourceLang targetLang) = Some entry"
  shows "(now \<le> timestamp entry + ttl - 1 \<longrightarrow>
            get text sourceLang targetLang now c = (Some (entry_translated entry), c))
       \<and> (now > timestamp entry + ttl \<longrightarrow>
            get text sourceLang targetLang now c
              = (None, mapDelete (generateKey text sourceLang targetLang) c)
            \<and> map_of (snd (get text sourceLang targetLang now c))
                (generateKey text sourceLang targetLang) = None)
       \<and> (k' \<noteq> generateKey text sourceLang targetLang \<longrightarrow>
            map_of (snd (get text sourceLang targetLang now c)) k' = map_of c k')
       \<and> (now - timestamp entry \<le> ttl \<longrightarrow> snd (get text sourceLang targetLang now c) = c)
       \<and> ttl = 86400000"
  using assms by (auto simp: get_def Let_def map_of_mapDelete ttl_def)

theorem get_ttl_witness:
  "map_of (set_cache [0x68] [0x79] en ko 0 []) (generateKey [0x68] en ko)
     = Some \<lparr>entry_translated = [0x79], timestamp = 0\<rparr>
   \<and> get [0x68] en ko 86399999 (set_cache [0x68] [0x79] en ko 0 [])
       = (Some [0x79], set_cache [0x68] [0x79] en ko 0 [])
   \<and> get [0x68] en ko 86400001 (set_cache [0x68] [0x79] en ko 0 [])
       = (None, mapDelete (generateKey [0x68] en ko) (set_cache [0x68] [0x79] en ko 0 []))
   \<and> generateKey [0x69] en ko \<noteq> generateKey [0x68] en ko
   \<and> map_of (snd (get [0x68] en ko 86400001 (set_cache [0x68] [0x79] en ko 0 [])))
         (generateKey [0x69] en ko)
       = map_of (set_cache [0x68] [0x79] en ko 0 []) (generateKey [0x69] en ko)"
proof -
  let ?e = "\<lparr>entry_translated = [0x79], timestamp = 0\<rparr>"
  let ?c = "set_cache [0x68] [0x79] en ko 0 []"
  have h: "map_of ?c (generateKey [0x68] en ko) = Some ?e"
    by (simp add: set_cache_def maxSize_def)
  have early: "(86399999::int) \<le> timestamp ?e + ttl - 1" "(86399999::int) - timestamp ?e \<le> ttl"
    and late: "(86400001::int) > timestamp ?e + ttl"
    and other: "generateKey [0x69] en ko \<noteq> generateKey [0x68] en ko"
    by (simp_all add: ttl_def generateKey_def)
  have sel: "entry_translated ?e = [0x79]" by simp
  from get_ttl[OF h, where now = 86399999 and k' = "generateKey [0x69] en ko"] early
  have hit: "get [0x68] en ko 86399999 ?c = (Some (entry_translated ?e), ?c)" by blast
  from get_ttl[OF h, where now = 86400001 and k' = "generateKey [0x69] en ko"] late other
  have miss: "get [0x68] en ko 86400001 ?c = (None, mapDelete (generateKey [0x68] en ko) ?c)"
    and kept: "map_of (snd (get [0x68] en ko 86400001 ?c)) (generateKey [0x69] en ko)
       = map_of ?c (generateKey [0x69] en ko)" by blast+
  from h hit[unfolded sel] miss other kept show ?thesis by blast
qed

text \<open>One step of the \<open>forEach\<close> keeps the two results a partition of the indices seen.\<close>

lemma partitionsUpTo_hit:
  assumes "partitionsUpTo k cached uncached"
  shows "partitionsUpTo (Suc k) (mapSet k v cached) uncached"
proof -
  from assms have "k \<notin> fst ` set cached" "k \<notin> set (map fst uncached)"
    unfolding partitionsUpTo_def by (metis Un_iff atLeastLessThan_iff image_set less_irrefl)+
  with assms show ?thesis
    unfolding partitionsUpTo_def by (auto simp: mapSet_fresh atLeastLessThanSuc)
qed

lemma partitionsUpTo_miss:
  assumes "partitionsUpTo k cached uncached"
  shows "partitionsUpTo (Suc k) cached (uncached @ [(k, text)])"
proof -
  from assms have "k \<notin> set (map fst cached)" "\<forall>i\<in>set (map fst uncached). i < k"
    unfolding partitionsUpTo_def by (metis Un_iff atLeastLessThan_iff less_irrefl)+
  with assms show ?thesis
    unfolding partitionsUpTo_def by (auto simp: sorted_wrt_append atLeastLessThanSuc)
qed

lemma getMultipleLoop_partitions:
  "partitionsUpTo k cached uncached \<Longrightarrow>
   getMultipleLoop texts k src tgt now (cached, uncached, c) = (cached', uncached', c') \<Longrightarrow>
   partitionsUpTo (k + length texts) cached' uncached'"
proof (induction texts arbitrary: k cached uncached c)
  case Nil
  then show ?case by simp
next
  case (Cons tx texts)
  obtain r c1 where g: "get tx src tgt (now k) c = (r, c1)" by fastforce
  show ?case
  proof (cases "r \<noteq> None \<and> r \<noteq> Some []")
    case True
    then obtain s where s: "r = Some s" "s \<noteq> []" by auto
    with Cons.prems(2) g
    have "getMultipleLoop texts (Suc k) src tgt now (mapSet k s cached, uncached, c1)
            = (cached', uncached', c')" by simp
    from Cons.IH[OF partitionsUpTo_hit[OF Cons.prems(1)] this] show ?thesis by simp
  next
    case False
    with Cons.prems(2) g
    have "getMultipleLoop texts (Suc k) src tgt now (cached, uncached @ [(k, tx)], c1)
            = (cached', uncached', c')" by (auto split: option.splits)
    from Cons.IH[OF partitionsUpTo_miss[OF Cons.prems(1)] this] show ?thesis by simp
  qed
qed

lemma getMultipleLoop_texts:
  "\<forall>p\<in>set uncached. fst p < length pre \<and> snd p = (pre @ texts) ! fst p \<Longrightarrow>
   getMultipleLoop texts (length pre) src tgt now (cached, uncached, c) = (cached', uncached', c') \<Longrightarrow>
   \<forall>p\<in>set uncached'. snd p = (pre @ texts) ! fst p"
proof (induction texts arbitrary: pre cached uncached c)
  case Nil
  then show ?case by simp
next
  case (Cons tx texts)
  obtain r c1 where g: "get tx src tgt (now (length pre)) c = (r, c1)" by fastforce
  have pre: "\<forall>p\<in>set uncached. fst p < length (pre @ [tx])
                 \<and> snd p = ((pre @ [tx]) @ texts) ! fst p"
    using Cons.prems(1) by auto
  show ?case
  proof (cases "r \<noteq> None \<and> r \<noteq> Some []")
    case True
    then obtain s where s: "r = Some s" "s \<noteq> []" by auto
    with Cons.prems(2) g
    have "getMultipleLoop texts (length (pre @ [tx])) src tgt now
            (mapSet (length pre) s cached, uncached, c1) = (cached', uncached', c')" by simp
    from Cons.IH[OF pre this] show ?thesis by simp
  next
    case False
    with Cons.prems(2) g
    have l: "getMultipleLoop texts (length (pre @ [tx])) src tgt now
            (cached, uncached @ [(length pre, tx)], c1) = (cached', uncached', c')"
      by (auto split: option.splits)
    have "\<forall>p\<in>set (uncached @ [(length pre, tx)]). fst p < length (pre @ [tx])
                 \<and> snd p = ((pre @ [tx]) @ texts) ! fst p"
      using pre by (auto simp: nth_append)
    from Cons.IH[OF this l] show ?thesis by simp
  qed
qed

text \<open>
  C4. For every list of texts, every cache and every reading of the clock, the keys of
  \<open>cached\<close> and the indices of \<open>uncached\<close> are disjoint and without repetition, together
  they are exactly the indices \<open>0 .. n - 1\<close>, and \<open>uncached\<close> lists its indices in increasing
  order, each with the text of the input at that index.
\<close>

theorem getMultiple_partition:
  assumes "getMultiple texts sourceLang targetLang now c = (cached, uncached, c')"
  shows "distinct (map fst cached @ map fst uncached)
       \<and> set (map fst cached) \<union> set (map fst uncached) = {0..<length texts}
       \<and> sorted_wrt (<) (map fst uncached)
       \<and> (\<forall>p\<in>set uncached. snd p = texts ! fst p)"
proof -
  have "partitionsUpTo 0 [] []" by (simp add: partitionsUpTo_def)
  from getMultipleLoop_partitions[OF this assms[unfolded getMultiple_def]]
  have p: "partitionsUpTo (length texts) cached uncached" by simp
  have "\<forall>p\<in>set uncached. snd p = ([] @ texts) ! fst p"
    using getMultipleLoop_texts[of "[]" "[]" texts sourceLang targetLang now "[]" c cached uncached c']
      assms[unfolded getMultiple_def]
    by simp
  moreover have "distinct (map fst uncached)"
    using p by (simp add: partitionsUpTo_def strict_sorted_iff)
  ultimately show ?thesis
    using p unfolding partitionsUpTo_def by auto
qed

theorem getMultiple_partition_witness:
  "getMultiple [[0x61], [0x62]] en ko exampleClock (set_cache [0x61] [0x78] en ko 0 [])
     = ([(0, [0x78])], [(1, [0x62])], set_cache [0x61] [0x78] en ko 0 [])
   \<and> distinct (map fst [(0::nat, [0x78::16 word])] @ map fst [(1::nat, [0x62::16 word])])
   \<and> set (map fst [(0::nat, [0x78::16 word])]) \<union> set (map fst [(1::nat, [0x62::16 word])])
       = {0..<length [[0x61::16 word], [0x62]]}
   \<and> snd (1::nat, [0x62::16 word]) = [[0x61], [0x62]] ! fst (1::nat, [0x62::16 word])"
proof -
  have h: "getMultiple [[0x61], [0x62]] en ko exampleClock (set_cache [0x61] [0x78] en ko 0 [])
     = ([(0, [0x78])], [(1, [0x62])], set_cache [0x61] [0x78] en ko 0 [])"
    by (simp add: getMultiple_def get_def set_cache_def maxSize_def generateKey_def
        exampleClock_def ttl_def en_def ko_def)
  from getMultiple_partition[OF h] h show ?thesis by simp
qed

text \<open>
  During \<open>getMultiple\<close> the cache only loses entries, so an entry with an empty
  translation is read as null or as the empty string.
\<close>

lemma subcache_refl: "subcache c c"
  by (simp add: subcache_def)

lemma get_subcache: "subcache c1 c0 \<Longrightarrow> subcache (snd (get x src tgt t c1)) c0"
  by (auto simp: subcache_def get_def Let_def map_of_mapDelete split: option.splits)

lemma get_empty_falsy:
  assumes "subcache c1 c0" and "map_of c0 (generateKey x src tgt) = Some e"
    and "entry_translated e = []"
  shows "fst (get x src tgt t c1) = None \<or> fst (get x src tgt t c1) = Some []"
proof -
  from assms(1) have "map_of c1 (generateKey x src tgt) = None
      \<or> map_of c1 (generateKey x src tgt) = map_of c0 (generateKey x src tgt)"
    by (simp add: subcache_def)
  with assms(2,3) show ?thesis
    by (cases "ttl < t - timestamp e") (auto simp: get_def Let_def)
qed

lemma set_mapSet: "set (mapSet k v m) \<subseteq> insert (k, v) (set m)"
  by (induction m) auto

lemma getMultipleLoop_uncached_mono:
  "getMultipleLoop texts k src tgt now (cached, uncached, c) = (cached', uncached', c') \<Longrightarrow>
   set uncached \<subseteq> set uncached'"
proof (induction texts arbitrary: k cached uncached c)
  case Nil
  then show ?case by simp
next
  case (Cons tx texts)
  obtain r c1 where g: "get tx src tgt (now k) c = (r, c1)" by fastforce
  show ?case
  proof (cases "r \<noteq> None \<and> r \<noteq> Some []")
    case True
    then obtain s where s: "r = Some s" "s \<noteq> []" by auto
    with Cons.prems g
    have "getMultipleLoop texts (Suc k) src tgt now (mapSet k s cached, uncached, c1)
            = (cached', uncached', c')" by simp
    from Cons.IH[OF this] show ?thesis .
  next
    case False
    with Cons.prems g
    have "getMultipleLoop texts (Suc k) src tgt now (cached, uncached @ [(k, tx)], c1)
            = (cached', uncached', c')" by (auto split: option.splits)
    from Cons.IH[OF this] show ?thesis by simp
  qed
qed

lemma getMultipleLoop_empty_uncached:
  "subcache c1 c0 \<Longrightarrow> k \<le> i \<Longrightarrow> i < k + length texts \<Longrightarrow>
   map_of c0 (generateKey (texts ! (i - k)) src tgt) = Some e \<Longrightarrow> entry_translated e = [] \<Longrightarrow>
   getMultipleLoop texts k src tgt now (cached, uncached, c1) = (cached', uncached', c') \<Longrightarrow>
   (i, texts ! (i - k)) \<in> set uncached'"
proof (induction texts arbitrary: k cached uncached c1)
  case Nil
  then show ?case by simp
next
  case (Cons tx texts)
  obtain r c2 where g: "get tx src tgt (now k) c1 = (r, c2)" by fastforce
  have sub: "subcache c2 c0"
    using get_subcache[OF Cons.prems(1), of tx src tgt "now k"] g by simp
  show ?case
  proof (cases "i = k")
    case True
    with Cons.prems(4) have "map_of c0 (generateKey tx src tgt) = Some e" by simp
    from get_empty_falsy[OF Cons.prems(1) this Cons.prems(5), of "now k"] g
    have "r = None \<or> r = Some []" by simp
    with Cons.prems(6) g
    have "getMultipleLoop texts (Suc k) src tgt now (cached, uncached @ [(k, tx)], c2)
            = (cached', uncached', c')" by auto
    from getMultipleLoop_uncached_mono[OF this] True show ?thesis by auto
  next
    case False
    with Cons.prems(2,3) have range: "Suc k \<le> i" "i < Suc k + length texts" by simp_all
    from False Cons.prems(2) have idx: "(tx # texts) ! (i - k) = texts ! (i - Suc k)"
      by (simp add: nth_Cons')
    with Cons.prems(4) have e: "map_of c0 (generateKey (texts ! (i - Suc k)) src tgt) = Some e"
      by simp
    show ?thesis
    proof (cases "r \<noteq> None \<and> r \<noteq> Some []")
      case True
      then obtain s where s: "r = Some s" "s \<noteq> []" by auto
      with Cons.prems(6) g
      have "getMultipleLoop texts (Suc k) src tgt now (mapSet k s cached, uncached, c2)
              = (cached', uncached', c')" by simp
      from Cons.IH[OF sub range e Cons.prems(5) this] idx show ?thesis by simp
    next
      case False
      with Cons.prems(6) g
      have "getMultipleLoop texts (Suc k) src tgt now (cached, uncached @ [(k, tx)], c2)
              = (cached', uncached', c')" by (auto split: option.splits)
      from Cons.IH[OF sub range e Cons.prems(5) this] idx show ?thesis by simp
    qed
  qed
qed

lemma getMultipleLoop_cached_nonempty:
  "\<forall>p\<in>set cached. snd p \<noteq> [] \<Longrightarrow>
   getMultipleLoop texts k src tgt now (cached, uncached, c) = (cached', uncached', c') \<Longrightarrow>
   \<forall>p\<in>set cached'. snd p \<noteq> []"
proof (induction texts arbitrary: k cached uncached c)
  case Nil
  then show ?case by simp
next
  case (Cons tx texts)
  obtain r c1 where g: "get tx src tgt (now k) c = (r, c1)" by fastforce
  show ?case
  proof (cases "r \<noteq> None \<and> r \<noteq> Some []")
    case True
    then obtain s where s: "r = Some s" "s \<noteq> []" by auto
    with Cons.prems(2) g
    have l: "getMultipleLoop texts (Suc k) src tgt now (mapSet k s cached, uncached, c1)
            = (cached', uncached', c')" by simp
    have "\<forall>p\<in>set (mapSet k s cached). snd p \<noteq> []"
      using Cons.prems(1) s(2) set_mapSet[of k s cached] by auto
    from Cons.IH[OF this l] show ?thesis .
  next
    case False
    with Cons.prems(2) g
    have "getMultipleLoop texts (Suc k) src tgt now (cached, uncached @ [(k, tx)], c1)
            = (cached', uncached', c')" by (auto split: option.splits)
    from Cons.IH[OF Cons.prems(1) this] show ?thesis .
  qed
qed

text \<open>
  C10. Let the cache hold an entry whose translation is the empty string under the key of
  the text at index \<open>i\<close>. Then \<open>get\<close> on that text returns the empty string (a hit, at any
  time within \<open>ttl\<close> of its timestamp), but \<open>getMultiple\<close> puts \<open>i\<close> with its text into
  \<open>uncached\<close> and not into \<open>cached\<close>; and every value of \<open>cached\<close> is non-empty.
\<close>

theorem getMultiple_empty_translation:
  assumes "i < length texts"
    and "map_of c (generateKey (texts ! i) sourceLang targetLang) = Some entry"
    and "entry_translated entry = []"
    and "getMultiple texts sourceLang targetLang now c = (cached, uncached, c')"
  shows "(t - timestamp entry \<le> ttl \<longrightarrow>
            fst (get (texts ! i) sourceLang targetLang t c) = Some [])
       \<and> (i, texts ! i) \<in> set uncached
       \<and> i \<notin> fst ` set cached
       \<and> (\<forall>p\<in>set cached. snd p \<noteq> [])"
proof -
  note loop = assms(4)[unfolded getMultiple_def]
  have hit: "t - timestamp entry \<le> ttl \<longrightarrow>
            fst (get (texts ! i) sourceLang targetLang t c) = Some []"
    using assms(2,3) by (simp add: get_def Let_def)
  have unc: "(i, texts ! i) \<in> set uncached"
    using getMultipleLoop_empty_uncached[OF subcache_refl _ _ _ assms(3) loop, of i] assms(1,2)
    by simp
  have "partitionsUpTo 0 [] []" by (simp add: partitionsUpTo_def)
  from getMultipleLoop_partitions[OF this loop]
  have "set (map fst cached) \<inter> set (map fst uncached) = {}"
    by (simp add: partitionsUpTo_def)
  with unc have notc: "i \<notin> fst ` set cached" by force
  have "\<forall>p\<in>set cached. snd p \<noteq> []"
    by (rule getMultipleLoop_cached_nonempty[OF _ loop]) simp
  with hit unc notc show ?thesis by blast
qed

theorem getMultiple_empty_translation_witness:
  "(0::nat) < length [[0x61::16 word]]
   \<and> map_of (set_cache [0x61] [] en ko 0 []) (generateKey ([[0x61]] ! 0) en ko)
       = Some \<lparr>entry_translated = [], timestamp = 0\<rparr>
   \<and> (5 - timestamp \<lparr>entry_translated = [], timestamp = 0\<rparr> \<le> ttl)
   \<and> fst (get ([[0x61]] ! 0) en ko 5 (set_cache [0x61] [] en ko 0 [])) = Some []
   \<and> getMultiple [[0x61]] en ko exampleClock (set_cache [0x61] [] en ko 0 [])
       = ([], [(0, [0x61])], set_cache [0x61] [] en ko 0 [])
   \<and> (0, [[0x61]] ! 0) \<in> set [(0::nat, [0x61::16 word])]"
proof -
  have h1: "(0::nat) < length [[0x61::16 word]]" by simp
  have h2: "map_of (set_cache [0x61] [] en ko 0 []) (generateKey ([[0x61]] ! 0) en ko)
       = Some \<lparr>entry_translated = [], timestamp = 0\<rparr>"
    by (simp add: set_cache_def maxSize_def)
  have h3: "entry_translated \<lparr>entry_translated = [], timestamp = 0\<rparr> = []" by simp
  have h4: "getMultiple [[0x61]] en ko exampleClock (set_cache [0x61] [] en ko 0 [])
       = ([], [(0, [0x61])], set_cache [0x61] [] en ko 0 [])"
    by (simp add: getMultiple_def get_def set_cache_def maxSize_def generateKey_def
        exampleClock_def ttl_def)
  from getMultiple_empty_translation[OF h1 h2 h3 h4, of 5] h1 h2 h4 show ?thesis
    by (simp add: ttl_def)
qed

text \<open>The scan of \<open>evictOldest\<close> and a window of \<open>set\<close> calls.\<close>

lemma evictScan_keep:
  "\<forall>p\<in>set rest. t \<le> timestamp (snd p) \<Longrightarrow> evictScan rest (Some k, Some t) = (Some k, Some t)"
  by (induction rest) auto

lemma mapDelete_absent: "k \<notin> fst ` set m \<Longrightarrow> mapDelete k m = m"
  by (induction m) (auto simp: mapDelete_def)

lemma evictOldest_head:
  assumes "k \<noteq> []" and "k \<notin> fst ` set rest" and "\<forall>p\<in>set rest. timestamp e < timestamp (snd p)"
  shows "evictOldest ((k, e) # rest) = rest"
proof -
  have "evictScan rest (Some k, Some (timestamp e)) = (Some k, Some (timestamp e))"
    using assms(3) by (intro evictScan_keep) auto
  then have "evictOldest ((k, e) # rest) = mapDelete k ((k, e) # rest)"
    using assms(1) by (simp add: evictOldest_def)
  also have "\<dots> = mapDelete k rest" by (simp add: mapDelete_def)
  also have "\<dots> = rest" using assms(2) by (rule mapDelete_absent)
  finally show ?thesis .
qed

lemma generateKey_nonempty: "generateKey x src tgt \<noteq> []"
  by (simp add: generateKey_def)

lemma keyOf_nonempty: "keyOf x \<noteq> []"
  by (cases x) (simp add: generateKey_nonempty)

lemma setAll_append: "setAll (xs @ ys) c = setAll ys (setAll xs c)"
  by (induction xs arbitrary: c) auto

lemma setAll_single:
  "setAll [x] c = mapSet (keyOf x) (entryOf x) (if maxSize \<le> length c then evictOldest c else c)"
  by (cases x) (simp add: set_cache_def Let_def)

lemma timestamp_entryOf: "timestamp (entryOf x) = timeOf x"
  by (cases x) simp

lemma setAll_window:
  "distinct (map keyOf calls) \<Longrightarrow> sorted_wrt (<) (map timeOf calls) \<Longrightarrow>
   setAll calls [] = map written (drop (length calls - maxSize) calls)"
proof (induction calls rule: rev_induct)
  case Nil
  then show ?case by simp
next
  case (snoc x xs)
  let ?W = "drop (length xs - maxSize) xs"
  from snoc.prems have dx: "distinct (map keyOf xs)" and sx: "sorted_wrt (<) (map timeOf xs)"
    and fresh: "keyOf x \<notin> keyOf ` set xs"
    by (simp_all add: sorted_wrt_append)
  from snoc.IH[OF dx sx] have c: "setAll xs [] = map written ?W" .
  have capacity: "Suc 0 - maxSize = 0" by (simp add: maxSize_def)
  have freshW: "keyOf x \<notin> fst ` set (map written (drop n xs))" for n
  proof -
    have "fst ` set (map written (drop n xs)) = keyOf ` set (drop n xs)"
      by (simp add: written_def image_image)
    moreover have "set (drop n xs) \<subseteq> set xs" by (rule set_drop_subset)
    ultimately show ?thesis using fresh by blast
  qed
  show ?case
  proof (cases "maxSize \<le> length xs")
    case False
    then have "setAll (xs @ [x]) [] = mapSet (keyOf x) (entryOf x) (map written xs)"
      by (simp add: setAll_append setAll_single c)
    also have "\<dots> = map written xs @ [written x]"
      using freshW[of 0] by (simp add: mapSet_fresh written_def)
    finally show ?thesis using False by simp
  next
    case True
    then have lenW: "length ?W = maxSize" by simp
    then have "?W \<noteq> []" by (auto simp: maxSize_def)
    then obtain w ws where W: "?W = w # ws" by (cases ?W) auto
    have ws: "ws = drop (Suc (length xs - maxSize)) xs"
      using W by (metis drop_Suc list.sel(3) tl_drop)
    have "distinct (map keyOf ?W)" using dx by (simp flip: drop_map)
    then have kw: "keyOf w \<notin> fst ` set (map written ws)"
      by (simp add: W written_def image_image)
    have "sorted_wrt (<) (map timeOf ?W)" using sx by (simp flip: drop_map)
    then have tw: "\<forall>p\<in>set (map written ws). timestamp (entryOf w) < timestamp (snd p)"
      by (simp add: W written_def timestamp_entryOf)
    have ev: "evictOldest (map written ?W) = map written ws"
      unfolding W using evictOldest_head[OF keyOf_nonempty kw tw] by (simp add: written_def)
    have "setAll (xs @ [x]) [] = mapSet (keyOf x) (entryOf x) (map written ws)"
      using True lenW by (simp add: setAll_append setAll_single c ev)
    also have "\<dots> = map written ws @ [written x]"
      using freshW[of "Suc (length xs - maxSize)"] by (simp add: mapSet_fresh written_def ws)
    finally show ?thesis using True by (simp add: ws Suc_diff_le capacity)
  qed
qed

lemma evictScan_result:
  "evictScan c (Some k0, Some t0) = (ok, ot) \<Longrightarrow>
   \<exists>k t. ok = Some k \<and> ot = Some t \<and> t \<le> t0 \<and> (\<forall>p\<in>set c. t \<le> timestamp (snd p))
         \<and> ((k, t) = (k0, t0) \<or> (\<exists>e. (k, e) \<in> set c \<and> timestamp e = t))"
proof (induction c arbitrary: k0 t0)
  case Nil
  then show ?case by simp
next
  case (Cons p c)
  obtain k1 e1 where p: "p = (k1, e1)" by (cases p)
  show ?case
  proof (cases "timestamp e1 < t0")
    case True
    with Cons.prems p have "evictScan c (Some k1, Some (timestamp e1)) = (ok, ot)" by simp
    from Cons.IH[OF this] obtain k t where kt: "ok = Some k" "ot = Some t"
      "t \<le> timestamp e1" "\<forall>q\<in>set c. t \<le> timestamp (snd q)"
      "(k, t) = (k1, timestamp e1) \<or> (\<exists>e. (k, e) \<in> set c \<and> timestamp e = t)" by blast
    have "t \<le> t0" using kt(3) True by simp
    moreover have "\<forall>q\<in>set (p # c). t \<le> timestamp (snd q)" using kt(3,4) p by simp
    moreover have "\<exists>e. (k, e) \<in> set (p # c) \<and> timestamp e = t"
      using kt(5) p by auto
    ultimately show ?thesis using kt(1,2) by blast
  next
    case False
    with Cons.prems p have "evictScan c (Some k0, Some t0) = (ok, ot)" by simp
    from Cons.IH[OF this] obtain k t where kt: "ok = Some k" "ot = Some t"
      "t \<le> t0" "\<forall>q\<in>set c. t \<le> timestamp (snd q)"
      "(k, t) = (k0, t0) \<or> (\<exists>e. (k, e) \<in> set c \<and> timestamp e = t)" by blast
    have "\<forall>q\<in>set (p # c). t \<le> timestamp (snd q)" using kt(3,4) p False by simp
    moreover have "(k, t) = (k0, t0) \<or> (\<exists>e. (k, e) \<in> set (p # c) \<and> timestamp e = t)"
      using kt(5) by auto
    ultimately show ?thesis using kt(1,2,3) by blast
  qed
qed

lemma evictScan_oldest:
  assumes "c \<noteq> []"
  shows "\<exists>k e. fst (evictScan c (None, None)) = Some k \<and> (k, e) \<in> set c
               \<and> (\<forall>p\<in>set c. timestamp e \<le> timestamp (snd p))"
proof -
  from assms obtain k1 e1 rest where c: "c = (k1, e1) # rest" by (cases c) auto
  obtain ok ot where r: "evictScan rest (Some k1, Some (timestamp e1)) = (ok, ot)" by fastforce
  from evictScan_result[OF r] obtain k t where kt: "ok = Some k" "ot = Some t"
    "t \<le> timestamp e1" "\<forall>p\<in>set rest. t \<le> timestamp (snd p)"
    "(k, t) = (k1, timestamp e1) \<or> (\<exists>e. (k, e) \<in> set rest \<and> timestamp e = t)" by blast
  from kt(5) obtain e where e: "(k, e) \<in> set c" "timestamp e = t"
    using c by auto
  have "fst (evictScan c (None, None)) = Some k" by (simp add: c r kt(1))
  moreover have "\<forall>p\<in>set c. timestamp e \<le> timestamp (snd p)"
    using kt(3,4) e(2) c by auto
  ultimately show ?thesis using e(1) by blast
qed

lemma mapDelete_remove1:
  "distinct (map fst m) \<Longrightarrow> (k, e) \<in> set m \<Longrightarrow> mapDelete k m = remove1 (k, e) m"
proof (induction m)
  case Nil
  then show ?case by simp
next
  case (Cons p m)
  show ?case
  proof (cases "p = (k, e)")
    case True
    with Cons.prems(1) have "k \<notin> fst ` set m" by simp
    with True show ?thesis by (simp add: mapDelete_def mapDelete_absent[unfolded mapDelete_def])
  next
    case False
    with Cons.prems(2) have in_m: "(k, e) \<in> set m" by auto
    then have "k \<in> fst ` set m" by force
    with Cons.prems(1) have "fst p \<noteq> k" by auto
    with Cons in_m False show ?thesis by (simp add: mapDelete_def)
  qed
qed

lemma set_cache_full:
  assumes "wellFormed c" and "maxSize \<le> length c"
  shows "\<exists>k e. (k, e) \<in> set c \<and> (\<forall>p\<in>set c. timestamp e \<le> timestamp (snd p))
       \<and> set_cache x tr src tgt now c
           = mapSet (generateKey x src tgt) \<lparr>entry_translated = tr, timestamp = now\<rparr>
               (remove1 (k, e) c)"
proof -
  from assms(2) have "c \<noteq> []" by (auto simp: maxSize_def)
  from evictScan_oldest[OF this] obtain k e where ke:
    "fst (evictScan c (None, None)) = Some k" "(k, e) \<in> set c"
    "\<forall>p\<in>set c. timestamp e \<le> timestamp (snd p)" by blast
  from assms(1) ke(2) have "k \<noteq> []" by (force simp: wellFormed_def)
  then have "evictOldest c = mapDelete k c" by (simp add: evictOldest_def ke(1))
  also have "\<dots> = remove1 (k, e) c"
    using assms(1) ke(2) by (intro mapDelete_remove1) (simp_all add: wellFormed_def)
  finally have "set_cache x tr src tgt now c
           = mapSet (generateKey x src tgt) \<lparr>entry_translated = tr, timestamp = now\<rparr>
               (remove1 (k, e) c)"
    using assms(2) by (simp add: set_cache_def Let_def)
  with ke(2,3) show ?thesis by blast
qed

lemma map_of_written:
  "distinct (map keyOf ys) \<Longrightarrow> y \<in> set ys \<Longrightarrow> map_of (map written ys) (keyOf y) = Some (entryOf y)"
  by (rule map_of_is_SomeI) (auto simp: written_def comp_def)

lemma map_of_written_absent:
  "keyOf y \<notin> keyOf ` set ys \<Longrightarrow> map_of (map written ys) (keyOf y) = None"
  by (simp add: map_of_eq_None_iff written_def image_image)

lemma get_present:
  "map_of c (generateKey x src tgt) = Some \<lparr>entry_translated = tr, timestamp = t\<rparr> \<Longrightarrow>
   r - t \<le> ttl \<Longrightarrow> get x src tgt r c = (Some tr, c)"
  by (simp add: get_def Let_def)

lemma get_absent: "map_of c (generateKey x src tgt) = None \<Longrightarrow> get x src tgt r c = (None, c)"
  by (simp add: get_def Let_def)

lemma keyOf_exampleCall_inj: "inj_on (\<lambda>i. keyOf (exampleCall i)) A"
  by (simp add: inj_on_def exampleCall_def generateKey_def)

lemma exampleCalls_distinct: "distinct (map keyOf (map exampleCall [0..<n]))"
  by (simp add: distinct_map comp_def keyOf_exampleCall_inj)

lemma exampleCalls_sorted: "sorted_wrt (<) (map timeOf (map exampleCall [0..<n]))"
  by (simp add: sorted_wrt_map exampleCall_def)

lemma exampleCache_wellFormed: "wellFormed (map written (map exampleCall [0..<n]))"
proof -
  have "[] \<notin> set (map fst (map written (map exampleCall [0..<n])))"
  proof
    assume "[] \<in> set (map fst (map written (map exampleCall [0..<n])))"
    then obtain i where "[] = keyOf (exampleCall i)" by (auto simp: written_def)
    with keyOf_nonempty[of "exampleCall i"] show False by simp
  qed
  with exampleCalls_distinct[of n] show ?thesis
    by (simp add: wellFormed_def written_def comp_def)
qed

text \<open>Every operation of the cache keeps it well formed.\<close>

lemma wellFormed_mapDelete: "wellFormed c \<Longrightarrow> wellFormed (mapDelete k c)"
  by (auto simp: wellFormed_def mapDelete_def distinct_map_filter)

lemma map_fst_mapSet:
  "map fst (mapSet k v m) = (if k \<in> set (map fst m) then map fst m else map fst m @ [k])"
  by (induction m) auto

lemma wellFormed_mapSet: "wellFormed c \<Longrightarrow> k \<noteq> [] \<Longrightarrow> wellFormed (mapSet k v c)"
  by (auto simp: wellFormed_def map_fst_mapSet)

lemma wellFormed_evictOldest: "wellFormed c \<Longrightarrow> wellFormed (evictOldest c)"
  by (simp add: evictOldest_def wellFormed_mapDelete split: option.splits)

lemma wellFormed_set_cache: "wellFormed c \<Longrightarrow> wellFormed (set_cache x tr src tgt now c)"
  by (simp add: set_cache_def Let_def wellFormed_mapSet wellFormed_evictOldest generateKey_nonempty)

lemma wellFormed_get: "wellFormed c \<Longrightarrow> wellFormed (snd (get x src tgt now c))"
  by (simp add: get_def Let_def wellFormed_mapDelete split: option.splits)

lemma wellFormed_setAll: "wellFormed c \<Longrightarrow> wellFormed (setAll calls c)"
  by (induction calls c rule: setAll.induct) (simp_all add: wellFormed_set_cache)

lemma wellFormed_empty: "wellFormed []"
  by (simp add: wellFormed_def)

text \<open>
  C5. When the cache holds \<open>maxSize = 1000\<close> entries, \<open>set\<close> first removes exactly one
  entry, one whose timestamp is the smallest of all, and then writes the given key. So
  after 1001 \<open>set\<close> calls on distinct keys at strictly increasing times, starting from the
  empty cache, the cache holds 1000 entries, a \<open>get\<close> for the first call's key misses, and a
  \<open>get\<close> for the key of any other call returns its translation (read within \<open>ttl\<close> of the
  time it was written).
\<close>

theorem set_cache_evicts_oldest:
  assumes "wellFormed c" and "length c = maxSize"
    and "length calls = maxSize + 1" and "distinct (map keyOf calls)"
    and "sorted_wrt (<) (map timeOf calls)"
  shows "(\<exists>k e. (k, e) \<in> set c \<and> (\<forall>p\<in>set c. timestamp e \<le> timestamp (snd p))
            \<and> set_cache x tr sourceLang targetLang now c
                = mapSet (generateKey x sourceLang targetLang)
                    \<lparr>entry_translated = tr, timestamp = now\<rparr> (remove1 (k, e) c))
       \<and> maxSize = 1000
       \<and> length (setAll calls []) = maxSize
       \<and> (calls ! 0 = (x0, tr0, src0, tgt0, t0) \<longrightarrow>
            get x0 src0 tgt0 r (setAll calls []) = (None, setAll calls []))
       \<and> (0 < i \<and> i \<le> maxSize \<and> calls ! i = (xi, tri, srci, tgti, ti) \<and> r - ti \<le> ttl \<longrightarrow>
            get xi srci tgti r (setAll calls []) = (Some tri, setAll calls []))"
proof -
  have w: "setAll calls [] = map written (drop 1 calls)"
    using setAll_window[OF assms(4,5)] assms(3) by simp
  have calls: "calls = calls ! 0 # drop 1 calls"
    using assms(3) by (cases calls) simp_all
  have d: "distinct (map keyOf (drop 1 calls))" "keyOf (calls ! 0) \<notin> keyOf ` set (drop 1 calls)"
    using assms(4) by (subst (asm) calls, simp)+
  have absent: "get x0 src0 tgt0 r (setAll calls []) = (None, setAll calls [])"
    if "calls ! 0 = (x0, tr0, src0, tgt0, t0)"
    using map_of_written_absent[OF d(2)] that by (intro get_absent) (simp add: w)
  have present: "get xi srci tgti r (setAll calls []) = (Some tri, setAll calls [])"
    if "0 < i" "i \<le> maxSize" "calls ! i = (xi, tri, srci, tgti, ti)" "r - ti \<le> ttl"
  proof -
    from that(1,2) assms(3) have "drop 1 calls ! (i - 1) = calls ! i"
      and "i - 1 < length (drop 1 calls)" by simp_all
    then have "calls ! i \<in> set (drop 1 calls)" by (metis nth_mem)
    from map_of_written[OF d(1) this] that(3,4) show ?thesis
      by (intro get_present[where t = ti]) (simp_all add: w)
  qed
  from set_cache_full[of c x tr sourceLang targetLang now] assms(1,2) absent present
  show ?thesis by (simp add: w assms(3)) (simp add: maxSize_def)
qed

theorem set_cache_evicts_oldest_witness:
  "wellFormed (map written (map exampleCall [0..<1000]))
   \<and> length (map written (map exampleCall [0..<1000])) = maxSize
   \<and> length (map exampleCall [0..<1001]) = maxSize + 1
   \<and> distinct (map keyOf (map exampleCall [0..<1001]))
   \<and> sorted_wrt (<) (map timeOf (map exampleCall [0..<1001]))
   \<and> length (setAll (map exampleCall [0..<1001]) []) = 1000
   \<and> get [] en ko 1001 (setAll (map exampleCall [0..<1001]) [])
       = (None, setAll (map exampleCall [0..<1001]) [])
   \<and> get [0x61] en ko 1001 (setAll (map exampleCall [0..<1001]) [])
       = (Some [0x62], setAll (map exampleCall [0..<1001]) [])"
proof -
  have h1: "wellFormed (map written (map exampleCall [0..<1000]))"
    by (rule exampleCache_wellFormed)
  have h2: "length (map written (map exampleCall [0..<1000])) = maxSize"
    by (simp add: maxSize_def)
  have h3: "length (map exampleCall [0..<1001]) = maxSize + 1"
    by (simp add: maxSize_def)
  have h4: "distinct (map keyOf (map exampleCall [0..<1001]))"
    by (rule exampleCalls_distinct)
  have h5: "sorted_wrt (<) (map timeOf (map exampleCall [0..<1001]))"
    by (rule exampleCalls_sorted)
  have c0: "map exampleCall [0..<1001] ! 0 = ([], [0x62], en, ko, 0)"
    by (simp add: exampleCall_def)
  have c1: "map exampleCall [0..<1001] ! 1 = ([0x61], [0x62], en, ko, 1)"
    by (simp add: exampleCall_def)
  note t = set_cache_evicts_oldest[OF h1 h2 h3 h4 h5,
      where ?x0.0 = "[]" and ?tr0.0 = "[0x62]" and ?src0.0 = en and ?tgt0.0 = ko and ?t0.0 = 0
        and r = 1001 and i = 1 and xi = "[0x61]" and tri = "[0x62]" and srci = en
        and tgti = ko and ti = 1]
  have len: "length (setAll (map exampleCall [0..<1001]) []) = 1000"
    using t by (simp only: maxSize_def)
  have age: "(0::nat) < 1 \<and> (1::nat) \<le> maxSize"  "(1001::int) - 1 \<le> ttl"
    by (simp_all add: maxSize_def ttl_def)
  have absent: "get [] en ko 1001 (setAll (map exampleCall [0..<1001]) [])
       = (None, setAll (map exampleCall [0..<1001]) [])"
    using t c0 by blast
  have present: "get [0x61] en ko 1001 (setAll (map exampleCall [0..<1001]) [])
       = (Some [0x62], setAll (map exampleCall [0..<1001]) [])"
    using t c1 age by blast
  from h1 h2 h3 h4 h5 len absent present show ?thesis by blast
qed

section \<open>Properties of language detection\<close>

text \<open>
  C9. For a text with at least one Hangul or Latin character, \<open>detectLanguage\<close> returns
  \<open>ko\<close> exactly when the Hangul ratio exceeds \<open>0.7\<close>, \<open>en\<close> exactly when it is below \<open>0.3\<close>,
  and \<open>mixed\<close> exactly in between; with no such character it returns \<open>mixed\<close>. So the
  ratios \<open>0.8\<close>, \<open>0.1\<close> and \<open>0.5\<close> give \<open>ko\<close>, \<open>en\<close> and \<open>mixed\<close>. \<open>isSourceLanguage\<close> holds
  exactly when the classification is the source language or is \<open>mixed\<close>.
\<close>

theorem detectLanguage_thresholds:
  "(lettersOf text \<noteq> 0 \<longrightarrow>
      (detectLanguage text = ko \<longleftrightarrow> hangulRatio text > 7 / 10)
    \<and> (detectLanguage text = en \<longleftrightarrow> hangulRatio text < 3 / 10)
    \<and> (detectLanguage text = mixed \<longleftrightarrow> 3 / 10 \<le> hangulRatio text \<and> hangulRatio text \<le> 7 / 10))
   \<and> (lettersOf text = 0 \<longrightarrow> detectLanguage text = mixed)
   \<and> (hangulRatio text = 8 / 10 \<longrightarrow> detectLanguage text = ko)
   \<and> (hangulRatio text = 1 / 10 \<longrightarrow> detectLanguage text = en)
   \<and> (hangulRatio text = 5 / 10 \<longrightarrow> detectLanguage text = mixed)
   \<and> isSourceLanguage text sourceLang
        = (detectLanguage text = sourceLang \<or> detectLanguage text = mixed)"
proof -
  have ne: "ko \<noteq> en" "ko \<noteq> mixed" "en \<noteq> mixed" by (simp_all add: ko_def en_def mixed_def)
  have zero: "lettersOf text = 0 \<Longrightarrow> hangulRatio text = 0" by (simp add: hangulRatio_def)
  have d: "detectLanguage text =
      (if lettersOf text = 0 then mixed
       else if hangulRatio text > 7 / 10 then ko
       else if hangulRatio text < 3 / 10 then en else mixed)"
    by (simp add: detectLanguage_def hangulRatio_def lettersOf_def Let_def)
  show ?thesis
  proof (cases "lettersOf text = 0")
    case True
    with zero d show ?thesis by (auto simp: isSourceLanguage_def Let_def)
  next
    case False
    with d ne show ?thesis by (auto simp: isSourceLanguage_def Let_def)
  qed
qed

theorem detectLanguage_thresholds_witness:
  "lettersOf [0xAC00, 0xAC01, 0xAC02, 0xAC03, 0x61] \<noteq> 0
   \<and> hangulRatio [0xAC00, 0xAC01, 0xAC02, 0xAC03, 0x61] = 8 / 10
   \<and> detectLanguage [0xAC00, 0xAC01, 0xAC02, 0xAC03, 0x61] = ko
   \<and> lettersOf [0x31, 0x32] = 0 \<and> detectLanguage [0x31, 0x32] = mixed
   \<and> hangulRatio [0xAC00, 0x61, 0x62, 0x63, 0x64, 0x65, 0x66, 0x67, 0x68, 0x69] = 1 / 10
   \<and> detectLanguage [0xAC00, 0x61, 0x62, 0x63, 0x64, 0x65, 0x66, 0x67, 0x68, 0x69] = en
   \<and> hangulRatio [0xAC00, 0x61] = 5 / 10
   \<and> detectLanguage [0xAC00, 0x61] = mixed
   \<and> isSourceLanguage [0xAC00, 0x61] en"
proof -
  have r8: "hangulRatio [0xAC00, 0xAC01, 0xAC02, 0xAC03, 0x61] = 8 / 10"
    and l8: "lettersOf [0xAC00, 0xAC01, 0xAC02, 0xAC03, 0x61] \<noteq> 0"
    by (simp_all add: hangulRatio_def lettersOf_def isHangul_def isLatin_def)
  have l0: "lettersOf [0x31, 0x32] = 0"
    by (simp add: lettersOf_def isHangul_def isLatin_def)
  have r1: "hangulRatio [0xAC00, 0x61, 0x62, 0x63, 0x64, 0x65, 0x66, 0x67, 0x68, 0x69] = 1 / 10"
    by (simp add: hangulRatio_def lettersOf_def isHangul_def isLatin_def)
  have r5: "hangulRatio [0xAC00, 0x61] = 5 / 10"
    by (simp add: hangulRatio_def lettersOf_def isHangul_def isLatin_def)
  show ?thesis
    using detectLanguage_thresholds[of "[0xAC00, 0xAC01, 0xAC02, 0xAC03, 0x61]" en]
      detectLanguage_thresholds[of "[0x31, 0x32]" en]
      detectLanguage_thresholds[of "[0xAC00, 0x61, 0x62, 0x63, 0x64, 0x65, 0x66, 0x67, 0x68, 0x69]" en]
      detectLanguage_thresholds[of "[0xAC00, 0x61]" en]
      r8 l8 l0 r1 r5
    by simp
qed

end
